theory Spec2Isabelle
  imports Main "HOL-Library.Sublist" "HOL-Library.Monad_Syntax"
begin

section \<open>The fragment of std::string that XmlCleanup uses\<close>

text \<open>
  A \<^verbatim>\<open>std::string\<close> is a list of bytes. \<^verbatim>\<open>size_t\<close> positions are natural
  numbers; \<^verbatim>\<open>std::string::npos\<close> is \<open>None\<close>. The one place of the sources where an
  unsigned subtraction can wrap (in \<^verbatim>\<open>formatSingleLineComments\<close>) goes through
  \<open>size_t_sub\<close>, which writes the 64-bit wrap-around out.
\<close>

abbreviation CR :: char where "CR \<equiv> CHR 0x0D"
abbreviation LF :: char where "LF \<equiv> CHR 0x0A"
abbreviation TAB :: char where "TAB \<equiv> CHR 0x09"
abbreviation DQUOTE :: char where "DQUOTE \<equiv> CHR 0x22"
abbreviation SPACE :: char where "SPACE \<equiv> CHR 0x20"

text \<open>The first index at which \<open>pat\<close> starts in \<open>s\<close>, scanning from the left.\<close>

primrec search :: "string \<Rightarrow> string \<Rightarrow> nat option" where
  "search pat [] = (if pat = [] then Some 0 else None)"
| "search pat (c # cs) =
     (if prefix pat (c # cs) then Some 0 else map_option Suc (search pat cs))"

text \<open>
  \<^verbatim>\<open>s.find(pat, pos)\<close>: the first index \<open>\<ge> pos\<close> at which \<open>pat\<close> starts, \<open>npos\<close> when
  there is none or when \<open>pos > s.size()\<close>. \<^verbatim>\<open>s.find(ch, pos)\<close> is \<open>str_find s [ch] pos\<close>.
\<close>

definition str_find :: "string \<Rightarrow> string \<Rightarrow> nat \<Rightarrow> nat option" where
  "str_find s pat pos =
     (if pos \<le> length s then map_option (\<lambda>i. pos + i) (search pat (drop pos s)) else None)"

text \<open>
  \<^verbatim>\<open>s.replace(pos, n, t)\<close> for \<open>pos \<le> s.size()\<close> (every call of the sources passes a
  position that \<^verbatim>\<open>find\<close> returned); the count is clamped to the end of the string.
\<close>

definition str_replace :: "string \<Rightarrow> nat \<Rightarrow> nat \<Rightarrow> string \<Rightarrow> string" where
  "str_replace s pos n t = take pos s @ t @ drop (pos + n) s"

text \<open>\<^verbatim>\<open>s.substr(pos, n)\<close> and \<^verbatim>\<open>s.substr(pos)\<close> for \<open>pos \<le> s.size()\<close>.\<close>

definition str_substr :: "string \<Rightarrow> nat \<Rightarrow> nat \<Rightarrow> string" where
  "str_substr s pos n = take n (drop pos s)"

definition str_substr_from :: "string \<Rightarrow> nat \<Rightarrow> string" where
  "str_substr_from s pos = drop pos s"

text \<open>Unsigned 64-bit subtraction \<open>a - b\<close> of two \<^verbatim>\<open>size_t\<close> values.\<close>

definition size_t_sub :: "nat \<Rightarrow> nat \<Rightarrow> nat" where
  "size_t_sub a b = (if b \<le> a then a - b else a + 2 ^ 64 - b)"

text \<open>\<^verbatim>\<open>s.find_first_not_of(ch)\<close> and \<^verbatim>\<open>s.find_last_not_of(ch)\<close>.\<close>

definition find_first_not_of :: "string \<Rightarrow> char \<Rightarrow> nat option" where
  "find_first_not_of s ch =
     (if list_all (\<lambda>x. x = ch) s then None else Some (length (takeWhile (\<lambda>x. x = ch) s)))"

definition find_last_not_of :: "string \<Rightarrow> char \<Rightarrow> nat option" where
  "find_last_not_of s ch =
     (if list_all (\<lambda>x. x = ch) s then None
      else Some (length s - 1 - length (takeWhile (\<lambda>x. x = ch) (rev s))))"

subsection \<open>Facts about \<open>find\<close> that the loops' termination rests on\<close>

lemma search_Some:
  "search pat s = Some i \<Longrightarrow> i + length pat \<le> length s \<and> prefix pat (drop i s)"
proof (induction s arbitrary: i)
  case Nil
  then show ?case by (simp split: if_splits)
next
  case (Cons c cs)
  show ?case
  proof (cases "prefix pat (c # cs)")
    case True
    with Cons.prems show ?thesis by (auto dest: prefix_length_le)
  next
    case False
    with Cons.prems obtain j where j: "search pat cs = Some j" "i = Suc j" by auto
    with Cons.IH[OF j(1)] show ?thesis by simp
  qed
qed

lemma search_first:
  "search pat s = Some i \<Longrightarrow> j < i \<Longrightarrow> \<not> prefix pat (drop j s)"
proof (induction s arbitrary: i j)
  case Nil
  then show ?case by (simp split: if_splits)
next
  case (Cons c cs)
  show ?case
  proof (cases "prefix pat (c # cs)")
    case True
    with Cons.prems show ?thesis by simp
  next
    case False
    with Cons.prems obtain k where k: "search pat cs = Some k" "i = Suc k" by auto
    show ?thesis
    proof (cases j)
      case 0
      with False show ?thesis by simp
    next
      case (Suc j')
      with Cons.IH[OF k(1), of j'] Cons.prems k show ?thesis by simp
    qed
  qed
qed

lemma search_None:
  "search pat s = None \<Longrightarrow> \<not> prefix pat (drop j s)"
proof (induction s arbitrary: j)
  case Nil
  then show ?case by (simp split: if_splits)
next
  case (Cons c cs)
  then show ?case by (cases j) (auto split: if_splits)
qed

lemma str_find_Some:
  "str_find s pat pos = Some p \<Longrightarrow>
     pos \<le> p \<and> p + length pat \<le> length s \<and> prefix pat (drop p s)"
  unfolding str_find_def
  by (auto split: if_splits dest!: search_Some simp: add.commute)

section \<open>XmlIndenter.cpp\<close>

subsection \<open>replaceAll\<close>

text \<open>
  The \<^verbatim>\<open>while\<close> loop of \<^verbatim>\<open>replaceAll\<close>, with its two variables \<open>result\<close> and
  \<open>pos\<close>. With an empty \<open>from\<close> the loop of the source never ends, so the model is a
  partial function: not returning is the value \<open>None\<close>.
\<close>

partial_function (option) replaceAll_loop ::
  "string \<Rightarrow> string \<Rightarrow> string \<Rightarrow> nat \<Rightarrow> string option" where
  "replaceAll_loop result from to pos =
     (case str_find result from pos of
        None \<Rightarrow> Some result
      | Some p \<Rightarrow>
          replaceAll_loop (str_replace result p (length from) to) from to (p + length to))"

declare replaceAll_loop.simps [code]

definition replaceAll :: "string \<Rightarrow> string \<Rightarrow> string \<Rightarrow> string option" where
  "replaceAll source from to = replaceAll_loop source from to 0"

subsection \<open>normalizeLineEndings\<close>

text \<open>The first loop: a CR that is not followed by LF gets an LF after it.\<close>

function normalize_cr_loop :: "string \<Rightarrow> nat \<Rightarrow> string" where
  "normalize_cr_loop result pos =
     (case str_find result [CR] pos of
        None \<Rightarrow> result
      | Some p \<Rightarrow>
          if p + 1 \<ge> length result \<or> result ! (p + 1) \<noteq> LF
          then normalize_cr_loop (str_replace result p 1 [CR, LF]) (p + 2)
          else normalize_cr_loop result (p + 1))"
  by pat_completeness auto
termination
proof (relation "measure (\<lambda>(result, pos). length result - pos)")
  show "wf (measure (\<lambda>(result, pos). length result - pos))" by simp
next
  fix result :: string and pos p
  assume "str_find result [CR] pos = Some p"
  from str_find_Some[OF this] have "pos \<le> p" "p + 1 \<le> length result" by simp_all
  then show "((str_replace result p 1 [CR, LF], p + 2), (result, pos))
               \<in> measure (\<lambda>(result, pos). length result - pos)"
    by (simp add: str_replace_def)
next
  fix result :: string and pos p
  assume "str_find result [CR] pos = Some p"
  from str_find_Some[OF this] have "pos \<le> p" "p + 1 \<le> length result" by simp_all
  then show "((result, p + 1), (result, pos))
               \<in> measure (\<lambda>(result, pos). length result - pos)"
    by simp
qed

declare normalize_cr_loop.simps [simp del]

text \<open>
  The second loop walks \<open>result\<close> by index and builds \<open>finalResult\<close>: an LF whose
  predecessor in \<open>result\<close> is not CR is written as CR LF.
\<close>

function normalize_lf_loop :: "string \<Rightarrow> nat \<Rightarrow> string \<Rightarrow> string" where
  "normalize_lf_loop result i finalResult =
     (if i < length result
      then (if result ! i = LF \<and> (i = 0 \<or> result ! (i - 1) \<noteq> CR)
            then normalize_lf_loop result (i + 1) (finalResult @ [CR, LF])
            else normalize_lf_loop result (i + 1) (finalResult @ [result ! i]))
      else finalResult)"
  by pat_completeness auto
termination
  by (relation "measure (\<lambda>(result, i, finalResult). length result - i)") auto

declare normalize_lf_loop.simps [simp del]

definition normalizeLineEndings :: "string \<Rightarrow> string" where
  "normalizeLineEndings content = normalize_lf_loop (normalize_cr_loop content 0) 0 []"

subsection \<open>XmlIndenter::indentXML\<close>

text \<open>The parameter block of the formatter (XmlFormatter.h), with its field names.\<close>

record XmlFormatterParamsType =
  indentChars :: string
  eolChars :: string
  maxIndentLevel :: nat
  ensureConformity :: bool
  autoCloseTags :: bool
  indentAttributes :: bool
  indentOnly :: bool
  applySpacePreserve :: bool
  identityAttribues :: "string list"
  dumpIdAttributesName :: bool

text \<open>The members of class XmlIndenter (XmlIndenter.h).\<close>

record XmlIndenter =
  xmlContent :: string
  indentStr :: string
  eolStr :: string
  indentOnly :: bool
  autoCloseEmptyElements :: bool

text \<open>
  \<^verbatim>\<open>QuickXml::XmlFormatter::prettyPrint\<close> is declared in XmlFormatter.h and its body is not
  among the sources. \<^verbatim>\<open>indentXML\<close> constructs the formatter from the parameter block and
  the pre-processed text and reads the formatted string back, so the formatter enters the
  model as a parameter of this type: every theorem below holds for whatever function
  stands there.
\<close>

type_synonym prettyPrinter = "XmlFormatterParamsType \<Rightarrow> string \<Rightarrow> string"

text \<open>
  Lines 76--87: cut the content at its first \<^verbatim>\<open><\<close> (when it has one), then normalise the
  line endings. The result is the buffer the formatter is constructed with.
\<close>

definition preProcess :: "string \<Rightarrow> string" where
  "preProcess content =
     (let processedContent = content;
          startIndex = str_find processedContent ''<'' 0;
          processedContent =
            (case startIndex of
               Some i \<Rightarrow> str_substr_from processedContent i
             | None \<Rightarrow> processedContent)
      in normalizeLineEndings processedContent)"

text \<open>Lines 90--98: the parameter block handed to the formatter.\<close>

definition formatterParams :: "XmlIndenter \<Rightarrow> XmlFormatterParamsType" where
  "formatterParams this =
     \<lparr> indentChars = indentStr this,
       eolChars = eolStr this,
       maxIndentLevel = 255,
       ensureConformity = True,
       autoCloseTags = autoCloseEmptyElements this,
       indentAttributes = False,
       XmlFormatterParamsType.indentOnly = XmlIndenter.indentOnly this,
       applySpacePreserve = True,
       identityAttribues = [],
       dumpIdAttributesName = True \<rparr>"

text \<open>Lines 123--140: the loop that puts a space before \<^verbatim>\<open>/>\<close>.\<close>

function selfClosing_loop :: "string \<Rightarrow> nat \<Rightarrow> string" where
  "selfClosing_loop resultStr pos =
     (case str_find resultStr ''/>'' pos of
        None \<Rightarrow> resultStr
      | Some p \<Rightarrow>
          if p > 0 \<and> resultStr ! (p - 1) \<noteq> SPACE \<and> resultStr ! (p - 1) \<noteq> DQUOTE
          then selfClosing_loop (str_replace resultStr p (length ''/>'') '' />'')
                 (p + length '' />'')
          else selfClosing_loop resultStr (p + length ''/>''))"
  by pat_completeness auto
termination
proof (relation "measure (\<lambda>(resultStr, pos). length resultStr - pos)")
  show "wf (measure (\<lambda>(resultStr, pos). length resultStr - pos))" by simp
next
  fix resultStr :: string and pos p
  assume "str_find resultStr ''/>'' pos = Some p"
  from str_find_Some[OF this] have "pos \<le> p" "p + 2 \<le> length resultStr" by simp_all
  then show "((str_replace resultStr p (length ''/>'') '' />'', p + length '' />''),
              (resultStr, pos)) \<in> measure (\<lambda>(resultStr, pos). length resultStr - pos)"
    by (simp add: str_replace_def)
next
  fix resultStr :: string and pos p
  assume "str_find resultStr ''/>'' pos = Some p"
  from str_find_Some[OF this] have "pos \<le> p" "p + 2 \<le> length resultStr" by simp_all
  then show "((resultStr, p + length ''/>''), (resultStr, pos))
               \<in> measure (\<lambda>(resultStr, pos). length resultStr - pos)"
    by simp
qed

declare selfClosing_loop.simps [simp del]

text \<open>
  Lines 112--142: the four pattern replacements and the \<^verbatim>\<open>/>\<close> loop, applied to the
  string the formatter returned.
\<close>

definition spaceSelfClosing :: "string \<Rightarrow> string option" where
  "spaceSelfClosing formattedXml =
     do {
       formattedXml \<leftarrow> replaceAll formattedXml (''>'' @ [TAB] @ ''<!--'') ''> <!--'';
       formattedXml \<leftarrow> replaceAll formattedXml ''><!--'' ''> <!--'';
       formattedXml \<leftarrow> replaceAll formattedXml (DQUOTE # ''/>'') (DQUOTE # '' />'');
       formattedXml \<leftarrow> replaceAll formattedXml ''</>'' ''< />'';
       Some (selfClosing_loop formattedXml 0)
     }"

text \<open>Lines 112--147: all of the post-processing of XmlIndenter.cpp.\<close>

definition postProcess_cpp :: "string \<Rightarrow> string option" where
  "postProcess_cpp formattedXml =
     do {
       formattedXml \<leftarrow> spaceSelfClosing formattedXml;
       Some (normalizeLineEndings formattedXml)
     }"

definition indentXML_cpp :: "prettyPrinter \<Rightarrow> XmlIndenter \<Rightarrow> string option" where
  "indentXML_cpp prettyPrint this =
     postProcess_cpp (prettyPrint (formatterParams this) (preProcess (xmlContent this)))"

section \<open>The later revision of XmlIndenter.cpp (unnamed/part_000)\<close>

text \<open>
  This file has \<^verbatim>\<open>replaceAll\<close>, \<^verbatim>\<open>normalizeLineEndings\<close> and the body of
  \<^verbatim>\<open>indentXML\<close> up to the \<^verbatim>\<open>/>\<close> loop word for word as XmlIndenter.cpp has them, so
  they are modelled once, above. It adds \<^verbatim>\<open>formatSingleLineComments\<close> and calls it
  before the final \<^verbatim>\<open>normalizeLineEndings\<close>.
\<close>

text \<open>Lines 126--143: the range-for loop that collapses runs of spaces.\<close>

fun collapse_loop :: "string \<Rightarrow> string \<Rightarrow> bool \<Rightarrow> string" where
  "collapse_loop [] normalizedContent lastWasSpace = normalizedContent"
| "collapse_loop (c # cs) normalizedContent lastWasSpace =
     (if c = SPACE
      then (if \<not> lastWasSpace
            then collapse_loop cs (normalizedContent @ [c]) True
            else collapse_loop cs normalizedContent lastWasSpace)
      else collapse_loop cs (normalizedContent @ [c]) False)"

text \<open>Lines 103--121: trimming with \<^verbatim>\<open>find_first_not_of(' ')\<close> and \<^verbatim>\<open>find_last_not_of(' ')\<close>.\<close>

definition trimComment :: "string \<Rightarrow> string" where
  "trimComment commentContent =
     (let startTrim = find_first_not_of commentContent SPACE;
          endTrim = find_last_not_of commentContent SPACE
      in case (startTrim, endTrim) of
           (Some a, Some b) \<Rightarrow> str_substr commentContent a (b - a + 1)
         | (Some a, None) \<Rightarrow> str_substr_from commentContent a
         | (None, Some b) \<Rightarrow> str_substr commentContent 0 (b + 1)
         | (None, None) \<Rightarrow> [])"

text \<open>Lines 102--155: from the extracted comment content to the new comment.\<close>

definition rewriteComment :: "string \<Rightarrow> string" where
  "rewriteComment commentContent =
     (let normalizedContent = collapse_loop (trimComment commentContent) [] False
      in if normalizedContent = [] then ''<!-- -->''
         else ''<!-- '' @ normalizedContent @ '' -->'')"

text \<open>
  Lines 84--166: the \<^verbatim>\<open>while\<close> loop over the comments. \<open>pos0\<close> is \<open>pos\<close> before the
  \<^verbatim>\<open>find\<close> in the loop condition, \<open>pos\<close> after it. The count of the second
  \<^verbatim>\<open>substr\<close> is the unsigned difference \<^verbatim>\<open>endPos - (pos + 4)\<close>; the search for
  \<^verbatim>\<open>-->\<close> starts at \<open>pos\<close>, so \<open>endPos\<close> can be below \<open>pos + 4\<close>.
\<close>

function formatSingleLineComments_loop :: "string \<Rightarrow> nat \<Rightarrow> string" where
  "formatSingleLineComments_loop result pos0 =
     (case str_find result ''<!--'' pos0 of
        None \<Rightarrow> result
      | Some pos \<Rightarrow>
          (case str_find result ''-->'' pos of
             None \<Rightarrow> formatSingleLineComments_loop result (pos + 4)
           | Some endPos \<Rightarrow>
               let commentText = str_substr result pos (endPos - pos + 3) in
               if str_find commentText [LF] 0 = None \<and> str_find commentText [CR] 0 = None
               then
                 let commentContent =
                       str_substr result (pos + 4) (size_t_sub endPos (pos + 4));
                     newComment = rewriteComment commentContent
                 in formatSingleLineComments_loop
                      (str_replace result pos (endPos - pos + 3) newComment)
                      (pos + length newComment)
               else formatSingleLineComments_loop result (endPos + 3)))"
  by pat_completeness auto
termination
proof (relation "measure (\<lambda>(result, pos). length result - pos)")
  show "wf (measure (\<lambda>(result, pos). length result - pos))" by simp
next
  fix result :: string and pos0 pos
  assume a: "str_find result ''<!--'' pos0 = Some pos"
  from str_find_Some[OF a] have "pos0 \<le> pos" "pos + 4 \<le> length result" by simp_all
  then show "((result, pos + 4), (result, pos0))
               \<in> measure (\<lambda>(result, pos). length result - pos)"
    by simp
next
  fix result :: string and pos0 pos endPos commentText commentContent newComment
  assume a: "str_find result ''<!--'' pos0 = Some pos"
            "str_find result ''-->'' pos = Some endPos"
  from str_find_Some[OF a(1)] have 1: "pos0 \<le> pos" "pos + 4 \<le> length result" by simp_all
  from str_find_Some[OF a(2)] have 2: "pos \<le> endPos" "endPos + 3 \<le> length result"
    by simp_all
  from 1 2
  show "((str_replace result pos (endPos - pos + 3) newComment, pos + length newComment),
         (result, pos0)) \<in> measure (\<lambda>(result, pos). length result - pos)"
    by (simp add: str_replace_def)
next
  fix result :: string and pos0 pos endPos commentText
  assume a: "str_find result ''<!--'' pos0 = Some pos"
            "str_find result ''-->'' pos = Some endPos"
  from str_find_Some[OF a(1)] have 1: "pos0 \<le> pos" "pos + 4 \<le> length result" by simp_all
  from str_find_Some[OF a(2)] have 2: "pos \<le> endPos" "endPos + 3 \<le> length result"
    by simp_all
  from 1 2 show "((result, endPos + 3), (result, pos0))
                   \<in> measure (\<lambda>(result, pos). length result - pos)"
    by simp
qed

declare formatSingleLineComments_loop.simps [simp del]

definition formatSingleLineComments :: "string \<Rightarrow> string" where
  "formatSingleLineComments xml = formatSingleLineComments_loop xml 0"

text \<open>Lines 211--249: the post-processing of this revision.\<close>

definition postProcess_part000 :: "string \<Rightarrow> string option" where
  "postProcess_part000 formattedXml =
     do {
       formattedXml \<leftarrow> spaceSelfClosing formattedXml;
       formattedXml \<leftarrow> Some (formatSingleLineComments formattedXml);
       Some (normalizeLineEndings formattedXml)
     }"

definition indentXML_part000 :: "prettyPrinter \<Rightarrow> XmlIndenter \<Rightarrow> string option" where
  "indentXML_part000 prettyPrint this =
     postProcess_part000 (prettyPrint (formatterParams this) (preProcess (xmlContent this)))"

section \<open>main.cpp (unnamed/part_002): the run without arguments\<close>

text \<open>
  The directory tree the program runs in. An entry of a directory is a regular file with
  its bytes, a directory with its own entries, or something else (a socket, a device).
  A directory is the list of its named entries, in the order in which
  \<^verbatim>\<open>recursive_directory_iterator\<close> visits them; a path is the list of the names from the
  starting directory down. Every regular file of the tree can be opened for reading and
  for writing; links and failing system calls are not part of this model.
\<close>

datatype node = RegularFile string | Directory "(string \<times> node) list" | OtherEntry

type_synonym entries = "(string \<times> node) list"
type_synonym path = "string list"

text \<open>
  The sequence of entries that \<^verbatim>\<open>recursive_directory_iterator(directoryPath)\<close> yields:
  every entry of the directory, each directory followed by what is below it.
\<close>

function walk :: "path \<Rightarrow> entries \<Rightarrow> (path \<times> node) list" where
  "walk dir [] = []"
| "walk dir ((name, n) # es) =
     (dir @ [name], n)
       # (case n of Directory sub \<Rightarrow> walk (dir @ [name]) sub | _ \<Rightarrow> [])
       @ walk dir es"
  by pat_completeness auto
termination
  by (relation "measure (\<lambda>(dir, es). size_list (size_prod (\<lambda>_. 0) size) es)") auto

text \<open>
  \<^verbatim>\<open>path::extension()\<close>: the part of the last component from its last dot on; empty when
  the component is \<^verbatim>\<open>.\<close> or \<^verbatim>\<open>..\<close>, has no dot, or has its only dot in front.
\<close>

definition path_extension :: "path \<Rightarrow> string" where
  "path_extension p =
     (if p = [] then []
      else let filename = last p in
        if filename = ''.'' \<or> filename = ''..'' \<or> CHR ''.'' \<notin> set filename then []
        else let i = length filename - 1 - length (takeWhile (\<lambda>c. c \<noteq> CHR ''.'') (rev filename))
             in if i = 0 then [] else drop i filename)"

definition is_regular_file :: "node \<Rightarrow> bool" where
  "is_regular_file n = (case n of RegularFile _ \<Rightarrow> True | _ \<Rightarrow> False)"

text \<open>Lines 25--37: the loop over the entries, collecting into \<^verbatim>\<open>xmlFiles\<close>.\<close>

fun collect_loop :: "(path \<times> node) list \<Rightarrow> path list \<Rightarrow> path list" where
  "collect_loop [] xmlFiles = xmlFiles"
| "collect_loop ((p, n) # rest) xmlFiles =
     (if is_regular_file n
      then (let extension = path_extension p
            in if extension = ''.xml'' \<or> extension = ''.xsd''
               then collect_loop rest (xmlFiles @ [p])
               else collect_loop rest xmlFiles)
      else collect_loop rest xmlFiles)"

text \<open>
  Lines 11--44. The argument is what the path names: \<open>None\<close> when nothing exists there.
  A path that is no directory gives the empty vector (lines 18--22).
\<close>

definition findXmlAndXsdFiles :: "node option \<Rightarrow> path list" where
  "findXmlAndXsdFiles directoryPath =
     (case directoryPath of
        Some (Directory es) \<Rightarrow> collect_loop (walk [] es) []
      | _ \<Rightarrow> [])"

text \<open>
  \<^verbatim>\<open>readFile\<close> and \<^verbatim>\<open>writeFile\<close> call \<^verbatim>\<open>exit(1)\<close> when the file cannot be opened: a step
  of the program either continues with a value or leaves with an exit code and the tree
  as it is at that moment.
\<close>

datatype 'a step = Continue 'a | Exit nat entries

text \<open>What a path names in a tree, and the tree after a file has been written.\<close>

fun lookup :: "entries \<Rightarrow> path \<Rightarrow> node option" where
  "lookup es [] = None"
| "lookup es [name] = map_of es name"
| "lookup es (name # r # rest) =
     (case map_of es name of Some (Directory sub) \<Rightarrow> lookup sub (r # rest) | _ \<Rightarrow> None)"

definition replace_entry :: "entries \<Rightarrow> string \<Rightarrow> node \<Rightarrow> entries" where
  "replace_entry es name n = map (\<lambda>(k, x). if k = name then (k, n) else (k, x)) es"

text \<open>
  Opening an \<^verbatim>\<open>ofstream\<close> and writing the content: an existing regular file is truncated
  and rewritten, a missing one is created, and a path through something that is no
  directory, or to a directory, cannot be opened (\<open>None\<close>).
\<close>

fun store :: "entries \<Rightarrow> path \<Rightarrow> string \<Rightarrow> entries option" where
  "store es [] content = None"
| "store es [name] content =
     (case map_of es name of
        None \<Rightarrow> Some (es @ [(name, RegularFile content)])
      | Some (RegularFile _) \<Rightarrow> Some (replace_entry es name (RegularFile content))
      | Some _ \<Rightarrow> None)"
| "store es (name # r # rest) content =
     (case map_of es name of
        Some (Directory sub) \<Rightarrow>
          (case store sub (r # rest) content of
             None \<Rightarrow> None
           | Some sub' \<Rightarrow> Some (replace_entry es name (Directory sub')))
      | _ \<Rightarrow> None)"

text \<open>
  Lines 65--77 and 79--89. An \<^verbatim>\<open>ifstream\<close> opens a regular file and reads its bytes. With
  libstdc++ on Linux it also opens a directory, from which nothing can be read: the
  string is empty. A path that names nothing, or an entry of another kind, is not opened.
\<close>

definition readFile :: "entries \<Rightarrow> path \<Rightarrow> string step" where
  "readFile fs filename =
     (case lookup fs filename of
        Some (RegularFile content) \<Rightarrow> Continue content
      | Some (Directory _) \<Rightarrow> Continue []
      | _ \<Rightarrow> Exit 1 fs)"

definition writeFile :: "entries \<Rightarrow> path \<Rightarrow> string \<Rightarrow> entries step" where
  "writeFile fs filename content =
     (case store fs filename content of
        Some fs' \<Rightarrow> Continue fs'
      | None \<Rightarrow> Exit 1 fs)"

text \<open>
  Lines 92--116. \<^verbatim>\<open>indentXML\<close> is the member function of the indenter the file is linked
  with, from the constructed object to the string it returns (\<open>None\<close> when it does not
  return); the tree is threaded through. The \<^verbatim>\<open>catch\<close> branch, which returns false, is
  taken on an exception only, and none of the modelled steps throws one.
\<close>

definition processXmlFile ::
  "(XmlIndenter \<Rightarrow> string option) \<Rightarrow> entries \<Rightarrow> path \<Rightarrow> string \<Rightarrow> string \<Rightarrow> bool \<Rightarrow> bool
     \<Rightarrow> (bool \<times> entries) step option" where
  "processXmlFile indentXML fs inputPath indentStr' eolStr' indentOnly' autoCloseEmptyElements' =
     (case readFile fs inputPath of
        Exit code fs' \<Rightarrow> Some (Exit code fs')
      | Continue xmlContent' \<Rightarrow>
          (case indentXML \<lparr> xmlContent = xmlContent', indentStr = indentStr', eolStr = eolStr',
                           indentOnly = indentOnly',
                           autoCloseEmptyElements = autoCloseEmptyElements' \<rparr> of
             None \<Rightarrow> None
           | Some formattedXml \<Rightarrow>
               (case writeFile fs inputPath formattedXml of
                  Exit code fs' \<Rightarrow> Some (Exit code fs')
                | Continue fs' \<Rightarrow> Some (Continue (True, fs')))))"

text \<open>
  Lines 146--152: the loop over \<^verbatim>\<open>xmlFiles\<close>, with the default settings of lines 121--124
  (a tab to indent, LF as end of line, \<^verbatim>\<open>indentOnly = true\<close>,
  \<^verbatim>\<open>autoCloseEmptyElements = true\<close>).
\<close>

fun process_loop ::
  "(XmlIndenter \<Rightarrow> string option) \<Rightarrow> path list \<Rightarrow> entries \<Rightarrow> nat \<Rightarrow> (nat \<times> entries) step option" where
  "process_loop indentXML [] fs successCount = Some (Continue (successCount, fs))"
| "process_loop indentXML (file # files) fs successCount =
     (case processXmlFile indentXML fs file [TAB] [LF] True True of
        None \<Rightarrow> None
      | Some (Exit code fs') \<Rightarrow> Some (Exit code fs')
      | Some (Continue (ok, fs')) \<Rightarrow>
          process_loop indentXML files fs' (if ok then successCount + 1 else successCount))"

text \<open>
  Lines 129--157: \<^verbatim>\<open>main\<close> with \<^verbatim>\<open>argc == 1\<close>, in the current directory \<open>cwd\<close>. The result
  is the exit code and the tree the program leaves behind.
\<close>

definition main_no_args :: "(XmlIndenter \<Rightarrow> string option) \<Rightarrow> entries \<Rightarrow> (nat \<times> entries) option" where
  "main_no_args indentXML cwd =
     (let xmlFiles = findXmlAndXsdFiles (Some (Directory cwd))
      in if xmlFiles = [] then Some (0, cwd)
         else (case process_loop indentXML xmlFiles cwd 0 of
                 None \<Rightarrow> None
               | Some (Exit code fs) \<Rightarrow> Some (code, fs)
               | Some (Continue (successCount, fs)) \<Rightarrow> Some (0, fs)))"

section \<open>XmlParser.h and the tokenizer\<close>

text \<open>
  The token kinds, the parsing context and the token of XmlParser.h (lines 9--50). In
  \<^verbatim>\<open>XmlToken\<close>, \<open>chars\<close> points into the source text at \<open>pos\<close>: here it is the byte range
  itself, the \<open>size\<close> bytes from \<open>pos\<close> on. The members \<^verbatim>\<open>pos\<close>, \<^verbatim>\<open>size\<close> and \<^verbatim>\<open>context\<close> carry
  the suffix \<open>_tok\<close>, their names being taken.
\<close>

datatype XmlTokenType =
    Undefined | TagOpening | TagClosing | TagOpeningEnd | TagClosingEnd | TagSelfClosingEnd
  | AttrName | AttrValue | Text | Whitespace | Instruction | DeclarationBeg | DeclarationEnd
  | DeclarationSelfClosing | Comment | CDATA | LineBreak | Equal | EndOfFile

record XmlContext =
  inOpeningTag :: bool
  inClosingTag :: bool
  declarationObjects :: nat

record XmlToken =
  type :: XmlTokenType
  pos_tok :: nat
  chars :: string
  size_tok :: nat
  context_tok :: XmlContext

text \<open>
  The members of class XmlParser (lines 54--78) that decide the next token: the source
  text, the cursor, the context and the two attribute flags. The copies of the previous,
  current and next token, the look-ahead queue and the \<^verbatim>\<open>xml:space\<close> stack do not enter the
  byte range of a token and are left out.
\<close>

record XmlParser =
  srcText :: string
  srcLength :: nat
  currpos :: nat
  currcontext :: XmlContext
  hasAttrName :: bool
  expectAttrValue :: bool

text \<open>
  Modelled from the spec: the constructor and \<^verbatim>\<open>reset\<close>, whose bodies are not among the
  sources. The cursor is at the start of the buffer and no tag or declaration is open.
\<close>

definition XmlParser_new :: "string \<Rightarrow> XmlParser" where
  "XmlParser_new data =
     \<lparr> srcText = data, srcLength = length data, currpos = 0,
       currcontext = \<lparr> inOpeningTag = False, inClosingTag = False, declarationObjects = 0 \<rparr>,
       hasAttrName = False, expectAttrValue = False \<rparr>"

text \<open>
  Modelled from the spec: the character classes of section 4.1. A name character is an
  ASCII letter, a digit or one of \<^verbatim>\<open>_ - . :\<close> (the \<^verbatim>\<open>ns:\<close> prefix belongs to the name);
  whitespace is space and tab; a line break is made of CR and LF.
\<close>

definition is_name_char :: "char \<Rightarrow> bool" where
  "is_name_char c =
     (c \<in> set ''abcdefghijklmnopqrstuvwxyzABCDEFGHIJKLMNOPQRSTUVWXYZ0123456789_-.:'')"

definition is_blank :: "char \<Rightarrow> bool" where
  "is_blank c = (c = SPACE \<or> c = TAB)"

definition is_eol :: "char \<Rightarrow> bool" where
  "is_eol c = (c = CR \<or> c = LF)"

text \<open>
  Modelled from the spec: the cursor primitives, declared in XmlParser.h (lines 138--193)
  with their parameters and described in section 4.1; their bodies are not among the
  sources. Each takes the text from the cursor on and returns the number of characters
  read. \<^verbatim>\<open>readNextWord\<close> reads the longest run of name characters; \<^verbatim>\<open>readUntil\<close> reads up
  to the delimiter, looked for \<open>offset\<close> characters on, and through it with \<open>goAfter\<close>, or
  to the end of the buffer when there is none; \<^verbatim>\<open>readUntilFirstOf\<close> and
  \<^verbatim>\<open>readUntilFirstNotOf\<close> do the same for a set of characters.
\<close>

definition readNextWord :: "string \<Rightarrow> nat" where
  "readNextWord rest = length (takeWhile is_name_char rest)"

definition readUntil :: "string \<Rightarrow> string \<Rightarrow> nat \<Rightarrow> bool \<Rightarrow> nat" where
  "readUntil rest delimiter offset goAfter =
     (case str_find rest delimiter offset of
        None \<Rightarrow> length rest
      | Some i \<Rightarrow> if goAfter then i + length delimiter else i)"

definition readUntilFirstOf :: "string \<Rightarrow> string \<Rightarrow> nat \<Rightarrow> bool \<Rightarrow> nat" where
  "readUntilFirstOf rest characters offset goAfter =
     (let n = offset + length (takeWhile (\<lambda>c. c \<notin> set characters) (drop offset rest))
      in if n < length rest \<and> goAfter then n + 1 else min n (length rest))"

definition readUntilFirstNotOf :: "string \<Rightarrow> string \<Rightarrow> nat \<Rightarrow> nat" where
  "readUntilFirstNotOf rest characters offset =
     min (length rest) (offset + length (takeWhile (\<lambda>c. c \<in> set characters) (drop offset rest)))"

text \<open>
  Modelled from the spec: the attribute value of recognition rule 2. A value that begins
  with a quote runs through the matching quote, or to the end of the buffer when the
  quote is never closed; an unquoted one runs until whitespace, \<^verbatim>\<open>>\<close> or \<^verbatim>\<open>/>\<close>.
\<close>

fun unquotedValue :: "string \<Rightarrow> nat" where
  "unquotedValue [] = 0"
| "unquotedValue (c # cs) =
     (if is_blank c \<or> is_eol c \<or> c = CHR ''>'' \<or> (c = CHR ''/'' \<and> prefix ''>'' cs) then 0
      else 1 + unquotedValue cs)"

definition attrValue :: "string \<Rightarrow> nat" where
  "attrValue rest =
     (if prefix [DQUOTE] rest then readUntil rest [DQUOTE] 1 True
      else if prefix [CHR 0x27] rest then readUntil rest [CHR 0x27] 1 True
      else unquotedValue rest)"

text \<open>
  Modelled from the spec: a token of \<open>n\<close> bytes at the cursor. The token records the
  cursor and the bytes, and the cursor moves behind them.
\<close>

definition emit ::
  "XmlParser \<Rightarrow> XmlTokenType \<Rightarrow> nat \<Rightarrow> XmlContext \<Rightarrow> bool \<Rightarrow> bool \<Rightarrow> XmlToken \<times> XmlParser" where
  "emit this ty n cx name' value' =
     (\<lparr> type = ty, pos_tok = currpos this,
        chars = take n (drop (currpos this) (srcText this)), size_tok = n, context_tok = cx \<rparr>,
      this \<lparr> currpos := currpos this + n, currcontext := cx,
             hasAttrName := name', expectAttrValue := value' \<rparr>)"

text \<open>
  Modelled from the spec: \<^verbatim>\<open>XmlParser::fetchToken\<close>, declared in XmlParser.h (line 72),
  after the thirteen recognition rules of section 4.1, tried in their order, and the
  error semantics of that section (a construct that is never closed spans to the end of
  the buffer). Where the rules are silent the model decides as follows. Inside a tag,
  whitespace and line breaks are tokens of their own (rules 11 and 12), and the rule for
  attributes applies at the next call. \<^verbatim>\<open>=\<close> is \<open>Equal\<close> after an attribute name only. An
  attribute value that would be empty is no token: the next rule applies. A declaration
  runs through its first \<^verbatim>\<open>[\<close> (\<open>DeclarationBeg\<close>) or \<^verbatim>\<open>>\<close> (\<open>DeclarationSelfClosing\<close>), and
  \<^verbatim>\<open>]>\<close> closes an open one. \<open>Text\<close> starts with the character at the cursor, whatever it
  is, and runs up to the next \<^verbatim>\<open><\<close> behind it.
\<close>

definition fetchToken :: "XmlParser \<Rightarrow> XmlToken \<times> XmlParser" where
  "fetchToken this =
     (let cx = currcontext this;
          rest = drop (currpos this) (srcText this)
      in
      if rest = [] then
        emit this EndOfFile 0 cx (hasAttrName this) (expectAttrValue this)
      else if inOpeningTag cx \<and> expectAttrValue this \<and> attrValue rest > 0 then
        emit this AttrValue (attrValue rest) cx False False
      else if inOpeningTag cx \<and> is_name_char (hd rest) then
        emit this AttrName (readNextWord rest) cx True False
      else if inOpeningTag cx \<and> hasAttrName this \<and> hd rest = CHR ''='' then
        emit this Equal 1 cx False True
      else if prefix ''<?'' rest then
        emit this Instruction (readUntil rest ''?>'' 2 True) cx False False
      else if prefix ''<!--'' rest then
        emit this Comment (readUntil rest ''-->'' 4 True) cx False False
      else if prefix ''<![CDATA['' rest then
        emit this CDATA (readUntil rest '']]>'' 9 True) cx False False
      else if prefix ''<!'' rest then
        (let n = readUntilFirstOf rest ''[>'' 2 True
         in if rest ! (n - 1) = CHR ''[''
            then emit this DeclarationBeg n
                   (cx \<lparr> declarationObjects := declarationObjects cx + 1 \<rparr>) False False
            else emit this DeclarationSelfClosing n cx False False)
      else if declarationObjects cx > 0 \<and> prefix '']>'' rest then
        emit this DeclarationEnd 2
          (cx \<lparr> declarationObjects := declarationObjects cx - 1 \<rparr>) False False
      else if prefix ''</'' rest \<and> readNextWord (drop 2 rest) > 0 then
        emit this TagClosing (2 + readNextWord (drop 2 rest))
          (cx \<lparr> inClosingTag := True \<rparr>) False False
      else if prefix ''<'' rest \<and> readNextWord (drop 1 rest) > 0 then
        emit this TagOpening (1 + readNextWord (drop 1 rest))
          (cx \<lparr> inOpeningTag := True \<rparr>) False False
      else if inOpeningTag cx \<and> hd rest = CHR ''>'' then
        emit this TagOpeningEnd 1 (cx \<lparr> inOpeningTag := False \<rparr>) False False
      else if inClosingTag cx \<and> hd rest = CHR ''>'' then
        emit this TagClosingEnd 1 (cx \<lparr> inClosingTag := False \<rparr>) False False
      else if inOpeningTag cx \<and> prefix ''/>'' rest then
        emit this TagSelfClosingEnd 2 (cx \<lparr> inOpeningTag := False \<rparr>) False False
      else if is_eol (hd rest) then
        emit this LineBreak (readUntilFirstNotOf rest [CR, LF] 1) cx
          (hasAttrName this) (expectAttrValue this)
      else if is_blank (hd rest) then
        emit this Whitespace (readUntilFirstNotOf rest [SPACE, TAB] 1) cx
          (hasAttrName this) (expectAttrValue this)
      else
        emit this Text (readUntil rest ''<'' 1 False) cx False False)"

text \<open>
  Modelled from the spec: \<^verbatim>\<open>XmlParser::parseNext\<close> (XmlParser.h, line 128). It returns the
  token at the head of the look-ahead queue when there is one and fetches otherwise; in
  a run of \<^verbatim>\<open>parseNext\<close> calls alone the queue is empty, and the call is the fetch.
\<close>

definition parseNext :: "XmlParser \<Rightarrow> XmlToken \<times> XmlParser" where
  "parseNext this = fetchToken this"

subsection \<open>Every token but the last moves the cursor\<close>

text \<open>
  What a call that does not return \<open>EndOfFile\<close> does: the token is a non-empty range at the
  cursor, inside the buffer, and the cursor ends behind it (a proof device).
\<close>

definition advances :: "XmlParser \<Rightarrow> XmlToken \<times> XmlParser \<Rightarrow> bool" where
  "advances this r =
     (case r of (t, this') \<Rightarrow>
        type t \<noteq> EndOfFile
        \<and> 1 \<le> size_tok t \<and> currpos this + size_tok t \<le> length (srcText this)
        \<and> pos_tok t = currpos this
        \<and> chars t = take (size_tok t) (drop (currpos this) (srcText this))
        \<and> currpos this' = currpos this + size_tok t
        \<and> srcText this' = srcText this)"

lemma emit_advances:
  "ty \<noteq> EndOfFile \<Longrightarrow> 1 \<le> n \<Longrightarrow> n \<le> length rest \<Longrightarrow>
   rest = drop (currpos this) (srcText this) \<Longrightarrow>
   advances this (emit this ty n cx a b)"
  by (simp add: advances_def emit_def)

lemma readNextWord_le: "readNextWord rest \<le> length rest"
  by (simp add: readNextWord_def length_takeWhile_le)

lemma readNextWord_pos: "rest \<noteq> [] \<Longrightarrow> is_name_char (hd rest) \<Longrightarrow> 1 \<le> readNextWord rest"
  by (cases rest) (simp_all add: readNextWord_def)

lemma readUntil_le: "readUntil rest delimiter offset goAfter \<le> length rest"
  by (auto simp: readUntil_def split: option.splits dest: str_find_Some)

lemma readUntil_pos:
  "rest \<noteq> [] \<Longrightarrow> 1 \<le> offset \<Longrightarrow> 1 \<le> readUntil rest delimiter offset goAfter"
  by (cases rest) (auto simp: readUntil_def split: option.splits dest: str_find_Some)

lemma readUntilFirstOf_le: "readUntilFirstOf rest characters offset goAfter \<le> length rest"
  by (simp add: readUntilFirstOf_def Let_def)

lemma readUntilFirstOf_pos:
  "rest \<noteq> [] \<Longrightarrow> 1 \<le> offset \<Longrightarrow> 1 \<le> readUntilFirstOf rest characters offset goAfter"
  by (cases rest) (simp_all add: readUntilFirstOf_def Let_def)

lemma readUntilFirstNotOf_le: "readUntilFirstNotOf rest characters offset \<le> length rest"
  by (simp add: readUntilFirstNotOf_def)

lemma readUntilFirstNotOf_pos:
  "rest \<noteq> [] \<Longrightarrow> 1 \<le> offset \<Longrightarrow> 1 \<le> readUntilFirstNotOf rest characters offset"
  by (cases rest) (simp_all add: readUntilFirstNotOf_def)

lemma unquotedValue_le: "unquotedValue rest \<le> length rest"
  by (induction rest) auto

lemma attrValue_le: "attrValue rest \<le> length rest"
  by (simp add: attrValue_def readUntil_le unquotedValue_le)

lemma prefix_length2: "prefix [a, b] rest \<Longrightarrow> 2 \<le> length rest"
  by (auto dest: prefix_length_le)

lemma word_after_le: "k \<le> length rest \<Longrightarrow> k + readNextWord (drop k rest) \<le> length rest"
  using readNextWord_le[of "drop k rest"] by simp

lemma fetchToken_advances:
  assumes "currpos this < length (srcText this)"
  shows "advances this (fetchToken this)"
proof -
  define rest where "rest = drop (currpos this) (srcText this)"
  from assms have ne: "rest \<noteq> []" by (simp add: rest_def)
  note le = readNextWord_le[of rest] readUntil_le[of rest] readUntilFirstOf_le[of rest]
    readUntilFirstNotOf_le[of rest] attrValue_le[of rest]
  note ps = readNextWord_pos[OF ne] readUntil_pos[OF ne] readUntilFirstOf_pos[OF ne]
    readUntilFirstNotOf_pos[OF ne]
  have one: "1 \<le> length rest" using ne by (cases rest) simp_all
  have t1: "2 \<le> length rest" if "prefix '']>'' rest"
    using that by (rule prefix_length2)
  have t2: "2 \<le> length rest" if "prefix ''/>'' rest"
    using that by (rule prefix_length2)
  have w2: "2 + readNextWord (drop 2 rest) \<le> length rest" if "prefix ''</'' rest"
    using word_after_le[OF prefix_length2[OF that]] .
  have w1: "1 + readNextWord (drop 1 rest) \<le> length rest"
    using word_after_le[OF one] .
  have advances_if: "advances this (if c then x else y)"
    if "c \<Longrightarrow> advances this x" "\<not> c \<Longrightarrow> advances this y" for c x y
    using that by simp
  show ?thesis
    unfolding fetchToken_def Let_def rest_def[symmetric]
    by (intro advances_if emit_advances[OF _ _ _ rest_def])
       (use ne le ps one t1 t2 w1 w2 in \<open>simp_all\<close>)
qed


lemma fetchToken_EndOfFile:
  "\<not> currpos this < length (srcText this) \<Longrightarrow>
   fetchToken this = emit this EndOfFile 0 (currcontext this) (hasAttrName this) (expectAttrValue this)"
  by (simp add: fetchToken_def)

text \<open>
  The tokens that successive \<^verbatim>\<open>parseNext\<close> calls return, up to and with the first
  \<open>EndOfFile\<close>.
\<close>

function tokenize :: "XmlParser \<Rightarrow> XmlToken list" where
  "tokenize this =
     (case parseNext this of (t, this') \<Rightarrow>
        if type t = EndOfFile then [t] else t # tokenize this')"
  by pat_completeness auto
termination
proof (relation "measure (\<lambda>this. length (srcText this) - currpos this)")
  show "wf (measure (\<lambda>this. length (srcText this) - currpos this))" by simp
next
  fix this :: XmlParser and t this'
  assume p: "(t, this') = parseNext this" and t: "type t \<noteq> EndOfFile"
  have inside: "currpos this < length (srcText this)"
  proof (rule ccontr)
    assume "\<not> currpos this < length (srcText this)"
    from fetchToken_EndOfFile[OF this] p have "type t = EndOfFile"
      by (auto simp: parseNext_def emit_def)
    with t show False by simp
  qed
  from fetchToken_advances[OF inside] p
  have "1 \<le> size_tok t" "currpos this + size_tok t \<le> length (srcText this)"
    "currpos this' = currpos this + size_tok t" "srcText this' = srcText this"
    by (auto simp: parseNext_def advances_def)
  then show "(this', this) \<in> measure (\<lambda>this. length (srcText this) - currpos this)"
    by simp
qed

declare tokenize.simps [simp del]

section \<open>A formatter for the examples\<close>

text \<open>
  Modelled from the spec: \<^verbatim>\<open>QuickXml::XmlFormatter::prettyPrint\<close>, whose body is not among
  the sources, in indent-only mode on a buffer of one line that starts in column 0. By
  property 4 of section 8 of the specification, indent-only mode changes nothing but the
  leading whitespace of a line, and such a buffer has none: the formatter returns it as it
  is. The examples below call it on buffers of this shape only, with \<open>indentOnly = True\<close>.
\<close>

definition prettyPrint_oneLine :: prettyPrinter where
  "prettyPrint_oneLine params src = src"

text \<open>The members the first constructor of XmlIndenter sets: the default settings.\<close>

definition XmlIndenter_default :: "string \<Rightarrow> XmlIndenter" where
  "XmlIndenter_default content =
     \<lparr> xmlContent = content, indentStr = [TAB], eolStr = [LF],
       indentOnly = True, autoCloseEmptyElements = True \<rparr>"

section \<open>What the specification says, as functions and predicates\<close>

text \<open>
  Left-to-right replacement of the non-overlapping occurrences of \<open>from\<close>: once an
  occurrence is replaced, the scan goes on in the text behind it, and the inserted \<open>to\<close>
  is never looked at again.
\<close>

function replace_spec :: "string \<Rightarrow> string \<Rightarrow> string \<Rightarrow> string" where
  "replace_spec from to [] = []"
| "replace_spec from to (c # cs) =
     (if from \<noteq> [] \<and> prefix from (c # cs)
      then to @ replace_spec from to (drop (length from) (c # cs))
      else c # replace_spec from to cs)"
  by pat_completeness auto
termination
  by (relation "measure (\<lambda>(from, to, s). length s)") auto

text \<open>
  CRLF normalisation as the specification words it: an existing CR LF pair is kept, a lone
  CR and a lone LF each become CR LF, every other character is copied.
\<close>

fun crlf_spec :: "string \<Rightarrow> string" where
  "crlf_spec [] = []"
| "crlf_spec [c] = (if c = CR \<or> c = LF then [CR, LF] else [c])"
| "crlf_spec (c # d # cs) =
     (if c = CR \<and> d = LF then CR # LF # crlf_spec cs
      else if c = CR \<or> c = LF then CR # LF # crlf_spec (d # cs)
      else c # crlf_spec (d # cs))"

text \<open>Every line ending is CR LF: CR and LF occur only as adjacent pairs, in this order.\<close>

fun crlf_only :: "string \<Rightarrow> bool" where
  "crlf_only [] = True"
| "crlf_only [c] = (c \<noteq> CR \<and> c \<noteq> LF)"
| "crlf_only (c # d # cs) =
     (if c = CR then d = LF \<and> crlf_only cs else c \<noteq> LF \<and> crlf_only (d # cs))"

text \<open>The two passes of \<^verbatim>\<open>normalizeLineEndings\<close> as list recursions (proof devices).\<close>

fun cr_pass :: "string \<Rightarrow> string" where
  "cr_pass [] = []"
| "cr_pass (c # cs) =
     (if c = CR \<and> (cs = [] \<or> hd cs \<noteq> LF) then CR # LF # cr_pass cs else c # cr_pass cs)"

fun lf_pass :: "bool \<Rightarrow> string \<Rightarrow> string" where
  "lf_pass prevCR [] = []"
| "lf_pass prevCR (c # cs) =
     (if c = LF \<and> \<not> prevCR then CR # LF # lf_pass False cs else c # lf_pass (c = CR) cs)"

text \<open>The text that reaches the \<^verbatim>\<open>/>\<close> loop: the four replacements, as \<open>replace_spec\<close>.\<close>

definition patternsReplaced :: "string \<Rightarrow> string" where
  "patternsReplaced f =
     replace_spec ''</>'' ''< />''
       (replace_spec (DQUOTE # ''/>'') (DQUOTE # '' />'')
          (replace_spec ''><!--'' ''> <!--''
             (replace_spec (''>'' @ [TAB] @ ''<!--'') ''> <!--'' f)))"

text \<open>
  The \<^verbatim>\<open>/>\<close> loop as a list recursion (a proof device): \<open>prev\<close> is the character in
  front of the text still to be scanned, \<open>None\<close> at the start of the string.
\<close>

definition needs_space :: "char option \<Rightarrow> bool" where
  "needs_space prev = (case prev of None \<Rightarrow> False | Some x \<Rightarrow> x \<noteq> SPACE \<and> x \<noteq> DQUOTE)"

fun sc_pass :: "char option \<Rightarrow> string \<Rightarrow> string" where
  "sc_pass prev [] = []"
| "sc_pass prev [c] = [c]"
| "sc_pass prev (c # d # cs) =
     (if c = CHR ''/'' \<and> d = CHR ''>''
      then (if needs_space prev then '' />'' else ''/>'') @ sc_pass (Some (CHR ''>'')) cs
      else c # sc_pass (Some c) (d # cs))"

definition prev_at :: "string \<Rightarrow> nat \<Rightarrow> char option" where
  "prev_at s pos = (if pos = 0 then None else Some (s ! (pos - 1)))"

text \<open>
  Every \<^verbatim>\<open>/>\<close> of \<open>s\<close> has a space in front of it, \<open>prev\<close> being the character in front
  of \<open>s\<close>; and the same for "no \<^verbatim>\<open>/>\<close> of \<open>s\<close> has a double quote in front of it".
\<close>

fun spaced_after :: "char \<Rightarrow> string \<Rightarrow> bool" where
  "spaced_after prev [] = True"
| "spaced_after prev (c # cs) = ((prefix ''/>'' (c # cs) \<longrightarrow> prev = SPACE) \<and> spaced_after c cs)"

fun no_quote_before :: "char \<Rightarrow> string \<Rightarrow> bool" where
  "no_quote_before prev [] = True"
| "no_quote_before prev (c # cs) =
     (\<not> (prev = DQUOTE \<and> prefix ''/>'' (c # cs)) \<and> no_quote_before c cs)"

text \<open>
  What the post-processing achieves for \<^verbatim>\<open>/>\<close>: every occurrence that is not at the very
  start of the string has a space directly in front of it.
\<close>

definition every_slashGt_after_space :: "string \<Rightarrow> bool" where
  "every_slashGt_after_space s =
     (\<forall>i\<in>{1..<length s}. prefix ''/>'' (drop i s) \<longrightarrow> s ! (i - 1) = SPACE)"

text \<open>
  The same with exactly one space: the character in front of the \<^verbatim>\<open>/>\<close> is a space and
  the one before it, if there is one, is not.
\<close>

definition every_slashGt_after_one_space :: "string \<Rightarrow> bool" where
  "every_slashGt_after_one_space s =
     (\<forall>i\<in>{1..<length s}. prefix ''/>'' (drop i s) \<longrightarrow>
        s ! (i - 1) = SPACE \<and> (2 \<le> i \<longrightarrow> s ! (i - 2) \<noteq> SPACE))"

text \<open>
  The two readings of the specification's sentences on \<^verbatim>\<open>/>\<close>, as they are written:
  every occurrence has a character in front of it, which is a space or a quote; and every
  occurrence has exactly one space in front of it.
\<close>

definition slashGt_after_space_or_quote :: "string \<Rightarrow> bool" where
  "slashGt_after_space_or_quote s =
     (\<forall>i\<in>{0..<length s}. prefix ''/>'' (drop i s) \<longrightarrow>
        0 < i \<and> (s ! (i - 1) = SPACE \<or> s ! (i - 1) = DQUOTE))"

definition slashGt_after_one_space :: "string \<Rightarrow> bool" where
  "slashGt_after_one_space s =
     (\<forall>i\<in>{0..<length s}. prefix ''/>'' (drop i s) \<longrightarrow>
        0 < i \<and> s ! (i - 1) = SPACE \<and> \<not> (1 < i \<and> s ! (i - 2) = SPACE))"

text \<open>
  The comment pass as the specification words it. \<open>trim_spaces\<close> removes the leading and
  the trailing space characters, \<open>collapse_spaces\<close> turns every run of spaces into one
  space, \<open>comment_wrap\<close> puts the body between \<^verbatim>\<open><!--\<close> and \<^verbatim>\<open>-->\<close> with one space on
  each side (one space in all for an empty body).
\<close>

definition trim_spaces :: "string \<Rightarrow> string" where
  "trim_spaces s = rev (dropWhile (\<lambda>c. c = SPACE) (rev (dropWhile (\<lambda>c. c = SPACE) s)))"

fun collapse_spaces :: "string \<Rightarrow> string" where
  "collapse_spaces [] = []"
| "collapse_spaces [c] = [c]"
| "collapse_spaces (c # d # cs) =
     (if c = SPACE \<and> d = SPACE then collapse_spaces (d # cs) else c # collapse_spaces (d # cs))"

definition comment_wrap :: "string \<Rightarrow> string" where
  "comment_wrap body = (if body = [] then ''<!-- -->'' else ''<!-- '' @ body @ '' -->'')"

text \<open>
  The comments of a text, from left to right: a comment runs from a \<^verbatim>\<open><!--\<close> to the first
  \<^verbatim>\<open>-->\<close> behind it. One without CR and LF is rewritten, one with a CR or an LF is
  copied, the text between comments is copied, and a \<^verbatim>\<open><!--\<close> with no \<^verbatim>\<open>-->\<close> behind it
  ends the pass.
\<close>

function comments_spec :: "string \<Rightarrow> string" where
  "comments_spec s =
     (case search ''<!--'' s of
        None \<Rightarrow> s
      | Some i \<Rightarrow>
          (case search ''-->'' (drop (i + 4) s) of
             None \<Rightarrow> s
           | Some j \<Rightarrow>
               let body = take j (drop (i + 4) s);
                   rest = drop (i + 4 + j + 3) s
               in take i s
                  @ (if CR \<notin> set body \<and> LF \<notin> set body
                     then comment_wrap (collapse_spaces (trim_spaces body))
                     else ''<!--'' @ body @ ''-->'')
                  @ comments_spec rest))"
  by pat_completeness auto
termination
proof (relation "measure length")
  show "wf (measure length)" by simp
next
  fix s :: string and i j body rest
  assume a: "search ''<!--'' s = Some i" "rest = drop (i + 4 + j + 3) s"
  from search_Some[OF a(1)] have "i + 4 \<le> length s" by simp
  with a(2) show "(rest, s) \<in> measure length" by simp
qed

declare comments_spec.simps [simp del]

text \<open>The space-collapsing loop as a list recursion (a proof device).\<close>

fun collapse_from :: "bool \<Rightarrow> string \<Rightarrow> string" where
  "collapse_from lastWasSpace [] = []"
| "collapse_from lastWasSpace (c # cs) =
     (if c = SPACE
      then (if \<not> lastWasSpace then c # collapse_from True cs else collapse_from True cs)
      else c # collapse_from False cs)"

text \<open>
  A directory tree as a file system has it: the names inside one directory are distinct.
\<close>

function well_formed :: "entries \<Rightarrow> bool" where
  "well_formed [] = True"
| "well_formed ((name, n) # es) =
     (name \<notin> fst ` set es
      \<and> (case n of Directory sub \<Rightarrow> well_formed sub | _ \<Rightarrow> True)
      \<and> well_formed es)"
  by pat_completeness auto
termination
  by (relation "measure (size_list (size_prod (\<lambda>_. 0) size))") auto

text \<open>
  The tree after every regular file named \<^verbatim>\<open>*.xml\<close> or \<^verbatim>\<open>*.xsd\<close>, at any depth, has been
  overwritten with \<open>out\<close> of its content, and nothing else has changed.
\<close>

definition xml_or_xsd :: "string \<Rightarrow> bool" where
  "xml_or_xsd filename
     = (path_extension [filename] = ''.xml'' \<or> path_extension [filename] = ''.xsd'')"

function format_entries :: "(string \<Rightarrow> string) \<Rightarrow> entries \<Rightarrow> entries" where
  "format_entries out [] = []"
| "format_entries out ((name, n) # es) =
     (name, case n of
              RegularFile content \<Rightarrow> RegularFile (if xml_or_xsd name then out content else content)
            | Directory sub \<Rightarrow> Directory (format_entries out sub)
            | OtherEntry \<Rightarrow> OtherEntry)
       # format_entries out es"
  by pat_completeness auto
termination
  by (relation "measure (\<lambda>(out, es). size_list (size_prod (\<lambda>_. 0) size) es)") auto

text \<open>The paths of these files, in the order of the walk (a proof device).\<close>

function xml_paths :: "entries \<Rightarrow> path list" where
  "xml_paths [] = []"
| "xml_paths ((name, n) # es) =
     (case n of
        RegularFile content \<Rightarrow> if xml_or_xsd name then [[name]] else []
      | Directory sub \<Rightarrow> map ((#) name) (xml_paths sub)
      | OtherEntry \<Rightarrow> [])
     @ xml_paths es"
  by pat_completeness auto
termination
  by (relation "measure (size_list (size_prod (\<lambda>_. 0) size))") auto

text \<open>
  The byte ranges of a token sequence follow each other without gap or overlap from
  offset \<open>p\<close> on, and a token's range lies inside the buffer and holds the bytes found there.
\<close>

fun contiguous :: "nat \<Rightarrow> XmlToken list \<Rightarrow> bool" where
  "contiguous p [] = True"
| "contiguous p (t # ts) = (pos_tok t = p \<and> contiguous (p + size_tok t) ts)"

definition in_buffer :: "string \<Rightarrow> XmlToken \<Rightarrow> bool" where
  "in_buffer src t =
     (pos_tok t + size_tok t \<le> length src \<and> chars t = take (size_tok t) (drop (pos_tok t) src))"

text \<open>The test of lines 27--32 on one entry of the walk (a proof device).\<close>

definition selected :: "path \<times> node \<Rightarrow> bool" where
  "selected e = (is_regular_file (snd e)
                 \<and> (path_extension (fst e) = ''.xml'' \<or> path_extension (fst e) = ''.xsd''))"

section \<open>replaceAll returns, and what it returns\<close>

lemma replace_spec_skip:
  "\<forall>j<i. \<not> prefix from (drop j s) \<Longrightarrow> i \<le> length s \<Longrightarrow>
   replace_spec from to s = take i s @ replace_spec from to (drop i s)"
proof (induction i arbitrary: s)
  case 0
  then show ?case by simp
next
  case (Suc i)
  then obtain c cs where s: "s = c # cs" by (cases s) auto
  from Suc.prems(1) have "\<not> prefix from (drop 0 s)" by blast
  then have np: "\<not> prefix from (c # cs)" by (simp add: s)
  have "\<forall>j<i. \<not> prefix from (drop j cs)"
    using Suc.prems(1) s by (metis Suc_less_eq drop_Suc_Cons)
  with Suc.IH[of cs] Suc.prems(2) s np show ?case by simp
qed

lemma replace_spec_hit:
  "from \<noteq> [] \<Longrightarrow> prefix from s \<Longrightarrow>
   replace_spec from to s = to @ replace_spec from to (drop (length from) s)"
  by (cases s) auto

lemma replace_spec_none:
  assumes "\<And>j. \<not> prefix from (drop j s)"
  shows "replace_spec from to s = s"
  using replace_spec_skip[of "length s" "from" s to] assms by simp

lemma replaceAll_loop_eq:
  "from \<noteq> [] \<Longrightarrow> pos \<le> length result \<Longrightarrow>
   replaceAll_loop result from to pos
     = Some (take pos result @ replace_spec from to (drop pos result))"
proof (induction "length result - pos" arbitrary: result pos rule: less_induct)
  case less
  show ?case
  proof (cases "str_find result from pos")
    case None
    with less.prems(2) have "search from (drop pos result) = None"
      by (simp add: str_find_def)
    then have "replace_spec from to (drop pos result) = drop pos result"
      by (intro replace_spec_none search_None)
    with None show ?thesis by (subst replaceAll_loop.simps) simp
  next
    case (Some p)
    with less.prems(2) obtain i where i: "search from (drop pos result) = Some i" "p = pos + i"
      by (auto simp: str_find_def)
    note hit = search_Some[OF i(1)]
    let ?r = "str_replace result p (length from) to"
    have bound: "p + length from \<le> length result"
      using hit i(2) less.prems(2) by auto
    have tk: "take (p + length to) ?r = take p result @ to"
      using bound by (simp add: str_replace_def)
    have dr: "drop (p + length to) ?r = drop (p + length from) result"
      using bound by (simp add: str_replace_def)
    have fl: "0 < length from" using less.prems(1) by simp
    have lr: "length ?r - (p + length to) = length result - (p + length from)"
      using bound by (simp add: str_replace_def)
    have dec: "length ?r - (p + length to) < length result - pos"
      using lr bound fl i(2) by linarith
    have le: "p + length to \<le> length ?r"
      using bound by (simp add: str_replace_def)
    have "replaceAll_loop result from to pos = replaceAll_loop ?r from to (p + length to)"
      using Some by (subst replaceAll_loop.simps) simp
    also have "\<dots> = Some (take (p + length to) ?r
                          @ replace_spec from to (drop (p + length to) ?r))"
      by (rule less.hyps[OF dec less.prems(1) le])
    also have "take (p + length to) ?r @ replace_spec from to (drop (p + length to) ?r)
               = take p result @ to @ replace_spec from to (drop (p + length from) result)"
      by (simp add: tk dr)
    also have "take p result = take pos result @ take i (drop pos result)"
      by (simp add: i(2) take_add)
    also have "(take pos result @ take i (drop pos result))
                 @ to @ replace_spec from to (drop (p + length from) result)
               = take pos result @ replace_spec from to (drop pos result)"
    proof -
      have nf: "\<forall>j<i. \<not> prefix from (drop j (drop pos result))"
        using search_first[OF i(1)] by blast
      have il: "i \<le> length (drop pos result)"
        using hit by linarith
      have "replace_spec from to (drop pos result)
            = take i (drop pos result) @ replace_spec from to (drop i (drop pos result))"
        by (rule replace_spec_skip[OF nf il])
      also have "replace_spec from to (drop i (drop pos result))
                 = to @ replace_spec from to (drop (length from) (drop i (drop pos result)))"
        by (rule replace_spec_hit[OF less.prems(1) conjunct2[OF hit]])
      also have "drop (length from) (drop i (drop pos result)) = drop (p + length from) result"
        by (simp add: i(2) add.commute add.left_commute)
      finally show ?thesis by simp
    qed
    finally show ?thesis .
  qed
qed

lemma replaceAll_eq:
  "from \<noteq> [] \<Longrightarrow> replaceAll source from to = Some (replace_spec from to source)"
  by (simp add: replaceAll_def replaceAll_loop_eq)

text \<open>
  C10. For a non-empty \<open>from\<close>, \<^verbatim>\<open>replaceAll\<close> returns, and what it returns is the
  left-to-right replacement in which the scan resumes behind each inserted \<open>to\<close>: inserted
  text is never scanned again, whatever \<open>to\<close> contains.
\<close>

theorem replaceAll_terminates:
  "from \<noteq> [] \<Longrightarrow> replaceAll source from to = Some (replace_spec from to source)"
  by (rule replaceAll_eq)

theorem replaceAll_terminates_witness:
  "replaceAll ''aXa'' ''a'' ''aa'' = Some ''aaXaa''"
  using replaceAll_terminates[of "''a''" "''aXa''" "''aa''"] by simp

text \<open>
  With an empty \<^verbatim>\<open>from\<close> the loop finds a match at every position it reaches and
  never leaves: the call does not return.
\<close>

lemma replaceAll_loop_empty_from:
  assumes "replaceAll_loop result from to pos = Some y"
  shows "\<not> (from = [] \<and> pos \<le> length result)"
proof (rule replaceAll_loop.raw_induct[where P = "\<lambda>result from to pos y. \<not> (from = [] \<and> pos \<le> length result)",
      OF _ assms])
  fix loop :: "string \<Rightarrow> string \<Rightarrow> string \<Rightarrow> nat \<Rightarrow> string option"
    and result "from" to :: string and pos :: nat and y :: string
  assume IH: "\<And>result from to pos y. loop result from to pos = Some y \<Longrightarrow>
                \<not> (from = [] \<and> pos \<le> length result)"
    and body: "(case str_find result from pos of
                  None \<Rightarrow> Some result
                | Some p \<Rightarrow> loop (str_replace result p (length from) to) from to (p + length to))
               = Some y"
  show "\<not> (from = [] \<and> pos \<le> length result)"
  proof
    assume a: "from = [] \<and> pos \<le> length result"
    then have f: "str_find result from pos = Some pos"
      by (cases "drop pos result") (simp_all add: str_find_def)
    with body have step:
      "loop (str_replace result pos (length from) to) from to (pos + length to) = Some y"
      by simp
    have n: "\<not> (from = [] \<and> pos + length to \<le> length (str_replace result pos (length from) to))"
      by (rule IH[OF step])
    have "pos + length to \<le> length (str_replace result pos (length from) to)"
      using a by (simp add: str_replace_def)
    with n a show False by blast
  qed
qed

lemma replaceAll_empty_from: "replaceAll source [] to = None"
  using replaceAll_loop_empty_from[of source "[]" to 0] 
  by (cases "replaceAll source [] to") (auto simp: replaceAll_def)

section \<open>normalizeLineEndings\<close>

lemma search_char_None: "search [a] s = None \<Longrightarrow> a \<notin> set s"
  by (induction s) (auto split: if_splits)

lemma search_char_Some:
  "search [a] s = Some i \<Longrightarrow> i < length s \<and> s ! i = a \<and> a \<notin> set (take i s)"
proof (induction s arbitrary: i)
  case Nil
  then show ?case by simp
next
  case (Cons c cs)
  then show ?case by (cases "c = a") auto
qed

lemma str_find_char_None:
  "str_find s [a] pos = None \<Longrightarrow> a \<notin> set (drop pos s)"
  unfolding str_find_def by (auto split: if_splits dest: search_char_None)

lemma str_find_char_Some:
  assumes "str_find s [a] pos = Some p"
  shows "pos \<le> p" "p < length s" "s ! p = a" "a \<notin> set (take (p - pos) (drop pos s))"
proof -
  from assms obtain i where
    i: "search [a] (drop pos s) = Some i" "p = pos + i" "pos \<le> length s"
    unfolding str_find_def by (auto split: if_splits)
  from search_char_Some[OF i(1)] i(2,3)
  show "pos \<le> p" "p < length s" "s ! p = a" "a \<notin> set (take (p - pos) (drop pos s))"
    by (auto simp: add.commute)
qed

lemma drop_split_at:
  assumes "pos \<le> p" "p < length s"
  shows "drop pos s = take (p - pos) (drop pos s) @ s ! p # drop (Suc p) s"
proof -
  have "drop pos s = take (p - pos) (drop pos s) @ drop (p - pos) (drop pos s)"
    by (simp only: append_take_drop_id)
  also have "drop (p - pos) (drop pos s) = drop p s" using assms by simp
  also have "drop p s = s ! p # drop (Suc p) s" using assms by (simp add: Cons_nth_drop_Suc)
  finally show ?thesis .
qed

lemma take_split_at:
  assumes "pos \<le> p" "p \<le> length s"
  shows "take p s = take pos s @ take (p - pos) (drop pos s)"
proof -
  have "take p s = take (pos + (p - pos)) s" using assms by simp
  also have "\<dots> = take pos s @ take (p - pos) (drop pos s)" by (rule take_add)
  finally show ?thesis .
qed

lemma cr_pass_no_CR: "CR \<notin> set s \<Longrightarrow> cr_pass s = s"
  by (induction s) auto

lemma cr_pass_append_no_CR: "CR \<notin> set xs \<Longrightarrow> cr_pass (xs @ ys) = xs @ cr_pass ys"
  by (induction xs) auto

lemma normalize_cr_loop_eq:
  "normalize_cr_loop result pos = take pos result @ cr_pass (drop pos result)"
proof (induction result pos rule: normalize_cr_loop.induct)
  case (1 result pos)
  show ?case
  proof (cases "str_find result [CR] pos")
    case None
    then have "cr_pass (drop pos result) = drop pos result"
      by (intro cr_pass_no_CR str_find_char_None)
    with None show ?thesis by (subst normalize_cr_loop.simps) simp
  next
    case (Some p)
    note f = str_find_char_Some[OF Some]
    let ?pre = "take (p - pos) (drop pos result)"
    have split: "drop pos result = ?pre @ CR # drop (Suc p) result"
      using drop_split_at[OF f(1,2)] f(3) by simp
    have tk: "take p result = take pos result @ ?pre"
      using take_split_at[of pos p result] f by simp
    show ?thesis
    proof (cases "p + 1 \<ge> length result \<or> result ! (p + 1) \<noteq> LF")
      case True
      let ?r = "str_replace result p 1 [CR, LF]"
      have t2: "take (p + 2) ?r = take p result @ [CR, LF]"
        using f by (simp add: str_replace_def)
      have d2: "drop (p + 2) ?r = drop (Suc p) result"
        using f by (simp add: str_replace_def)
      have lone: "drop (Suc p) result = [] \<or> hd (drop (Suc p) result) \<noteq> LF"
        using True by (auto simp: hd_drop_conv_nth)
      have "normalize_cr_loop result pos = normalize_cr_loop ?r (p + 2)"
        using Some True by (subst normalize_cr_loop.simps) simp
      also have "\<dots> = take (p + 2) ?r @ cr_pass (drop (p + 2) ?r)"
        using "1.IH"(1)[OF Some True] .
      also have "\<dots> = take pos result @ ?pre @ CR # LF # cr_pass (drop (Suc p) result)"
        unfolding t2 d2 tk by simp
      also have "?pre @ CR # LF # cr_pass (drop (Suc p) result) = cr_pass (drop pos result)"
        using lone f(4) by (subst (2) split) (simp add: cr_pass_append_no_CR)
      finally show ?thesis .
    next
      case False
      then have nxt: "drop (Suc p) result \<noteq> []" "hd (drop (Suc p) result) = LF"
        by (auto simp: hd_drop_conv_nth)
      have "normalize_cr_loop result pos = normalize_cr_loop result (p + 1)"
        using Some False by (subst normalize_cr_loop.simps) simp
      also have "\<dots> = take (p + 1) result @ cr_pass (drop (p + 1) result)"
        using "1.IH"(2)[OF Some False] .
      also have "take (p + 1) result = take pos result @ ?pre @ [CR]"
        using f tk by (simp add: take_Suc_conv_app_nth)
      also have "(take pos result @ ?pre @ [CR]) @ cr_pass (drop (p + 1) result)
                 = take pos result @ cr_pass (drop pos result)"
        using nxt f(4) by (subst (2) split) (simp add: cr_pass_append_no_CR)
      finally show ?thesis .
    qed
  qed
qed

lemma normalize_lf_loop_eq:
  "i \<le> length result \<Longrightarrow>
   normalize_lf_loop result i acc
     = acc @ lf_pass (i > 0 \<and> result ! (i - 1) = CR) (drop i result)"
proof (induction result i acc rule: normalize_lf_loop.induct)
  case (1 result i finalResult)
  show ?case
  proof (cases "i < length result")
    case False
    with "1.prems" show ?thesis by (subst normalize_lf_loop.simps) simp
  next
    case True
    then have d: "drop i result = result ! i # drop (Suc i) result"
      by (simp add: Cons_nth_drop_Suc)
    show ?thesis
    proof (cases "result ! i = LF \<and> (i = 0 \<or> result ! (i - 1) \<noteq> CR)")
      case c: True
      have "normalize_lf_loop result i finalResult
            = normalize_lf_loop result (i + 1) (finalResult @ [CR, LF])"
        using True c by (subst normalize_lf_loop.simps) simp
      also have "\<dots> = (finalResult @ [CR, LF])
                   @ lf_pass (i + 1 > 0 \<and> result ! (i + 1 - 1) = CR) (drop (i + 1) result)"
        using "1.IH"(1)[OF True c] True by simp
      finally show ?thesis using c by (subst d) auto
    next
      case c: False
      have "normalize_lf_loop result i finalResult
            = normalize_lf_loop result (i + 1) (finalResult @ [result ! i])"
        using True c by (subst normalize_lf_loop.simps) auto
      also have "\<dots> = (finalResult @ [result ! i])
                   @ lf_pass (i + 1 > 0 \<and> result ! (i + 1 - 1) = CR) (drop (i + 1) result)"
        using "1.IH"(2)[OF True c] True by simp
      finally show ?thesis using c by (subst d) auto
    qed
  qed
qed

lemma normalizeLineEndings_passes: "normalizeLineEndings s = lf_pass False (cr_pass s)"
  by (simp add: normalizeLineEndings_def normalize_cr_loop_eq normalize_lf_loop_eq)

lemma lf_cr_pass:
  "lf_pass b (cr_pass s)
     = (if b \<and> s \<noteq> [] \<and> hd s = LF then LF # crlf_spec (tl s) else crlf_spec s)"
proof (induction s arbitrary: b rule: crlf_spec.induct)
  case 1
  then show ?case by simp
next
  case (2 c)
  then show ?case by auto
next
  case (3 c d cs)
  then show ?case by auto
qed

lemma normalizeLineEndings_crlf_spec: "normalizeLineEndings s = crlf_spec s"
  by (simp add: normalizeLineEndings_passes lf_cr_pass)

lemma crlf_only_Cons: "c \<noteq> CR \<Longrightarrow> c \<noteq> LF \<Longrightarrow> crlf_only (c # xs) = crlf_only xs"
  by (cases xs) auto

lemma crlf_only_crlf_spec: "crlf_only (crlf_spec s)"
  by (induction s rule: crlf_spec.induct) (auto simp: crlf_only_Cons)

lemma filter_crlf_spec:
  "filter (\<lambda>c. c \<noteq> CR \<and> c \<noteq> LF) (crlf_spec s) = filter (\<lambda>c. c \<noteq> CR \<and> c \<noteq> LF) s"
  by (induction s rule: crlf_spec.induct) auto

text \<open>
  C9. \<^verbatim>\<open>normalizeLineEndings\<close> touches line-ending characters only: with every CR and LF
  deleted, its result and its argument are the same string.
\<close>

theorem normalizeLineEndings_keeps_other_chars:
  "filter (\<lambda>c. c \<noteq> CR \<and> c \<noteq> LF) (normalizeLineEndings s)
     = filter (\<lambda>c. c \<noteq> CR \<and> c \<noteq> LF) s"
  by (simp add: normalizeLineEndings_crlf_spec filter_crlf_spec)

theorem normalizeLineEndings_keeps_other_chars_witness:
  "filter (\<lambda>c. c \<noteq> CR \<and> c \<noteq> LF) (normalizeLineEndings [CHR ''a'', CR, CHR ''b'', LF, CR, LF, CHR ''c''])
     = ''abc''"
  using normalizeLineEndings_keeps_other_chars[of "[CHR ''a'', CR, CHR ''b'', LF, CR, LF, CHR ''c'']"]
  by simp

lemma spaceSelfClosing_eq:
  "spaceSelfClosing f = Some (selfClosing_loop (patternsReplaced f) 0)"
  by (simp add: spaceSelfClosing_def patternsReplaced_def replaceAll_eq)

lemma postProcess_cpp_eq:
  "postProcess_cpp f = Some (normalizeLineEndings (selfClosing_loop (patternsReplaced f) 0))"
  by (simp add: postProcess_cpp_def spaceSelfClosing_eq)

lemma postProcess_part000_eq:
  "postProcess_part000 f
     = Some (normalizeLineEndings
               (formatSingleLineComments (selfClosing_loop (patternsReplaced f) 0)))"
  by (simp add: postProcess_part000_def spaceSelfClosing_eq)

text \<open>
  C1. \<^verbatim>\<open>normalizeLineEndings\<close> is the CRLF normalisation of the specification (a lone CR
  and a lone LF become CR LF, an existing CR LF stays), so in its result every line ending
  is CR LF; and it is the last step of \<^verbatim>\<open>indentXML\<close>, in both revisions and whatever the
  formatter returns.
\<close>

theorem indentXML_ends_with_normalizeLineEndings:
  "normalizeLineEndings s = crlf_spec s
   \<and> crlf_only (normalizeLineEndings s)
   \<and> (\<exists>t. indentXML_cpp prettyPrint this = Some (normalizeLineEndings t))
   \<and> (\<exists>t. indentXML_part000 prettyPrint this = Some (normalizeLineEndings t))"
proof (intro conjI)
  show "normalizeLineEndings s = crlf_spec s"
    by (rule normalizeLineEndings_crlf_spec)
  show "crlf_only (normalizeLineEndings s)"
    by (simp add: normalizeLineEndings_crlf_spec crlf_only_crlf_spec)
  show "\<exists>t. indentXML_cpp prettyPrint this = Some (normalizeLineEndings t)"
    unfolding indentXML_cpp_def postProcess_cpp_eq by (intro exI) (rule refl)
  show "\<exists>t. indentXML_part000 prettyPrint this = Some (normalizeLineEndings t)"
    unfolding indentXML_part000_def postProcess_part000_eq by (intro exI) (rule refl)
qed

theorem indentXML_ends_with_normalizeLineEndings_witness:
  "normalizeLineEndings [CR, CHR ''a'', LF, CHR ''b''] = [CR, LF, CHR ''a'', CR, LF, CHR ''b'']
   \<and> crlf_only (normalizeLineEndings [CR, CHR ''a'', LF, CHR ''b''])"
  using indentXML_ends_with_normalizeLineEndings[of "[CR, CHR ''a'', LF, CHR ''b'']"]
  by simp

section \<open>The text handed to the formatter\<close>

lemma search_char_eq:
  "search [a] s = (if a \<in> set s then Some (length (takeWhile (\<lambda>c. c \<noteq> a) s)) else None)"
  by (induction s) auto

lemma preProcess_eq:
  "preProcess content =
     (if CHR ''<'' \<in> set content
      then normalizeLineEndings (dropWhile (\<lambda>c. c \<noteq> CHR ''<'') content)
      else normalizeLineEndings content)"
  by (simp add: preProcess_def str_find_def search_char_eq str_substr_from_def
      dropWhile_eq_drop Let_def)

lemma hd_crlf_spec: "c \<noteq> CR \<Longrightarrow> c \<noteq> LF \<Longrightarrow> crlf_spec (c # cs) = c # crlf_spec cs"
  by (cases cs) auto

text \<open>
  C5. In both revisions \<^verbatim>\<open>indentXML\<close> hands the formatter \<open>preProcess\<close> of the content,
  and for a content with a \<^verbatim>\<open><\<close> that is the content from its first \<^verbatim>\<open><\<close> on (everything
  before it dropped first, the line endings normalised next): it begins with that \<^verbatim>\<open><\<close>.
\<close>

theorem indentXML_trims_to_first_lt:
  "indentXML_cpp prettyPrint this
     = postProcess_cpp (prettyPrint (formatterParams this) (preProcess (xmlContent this)))
   \<and> indentXML_part000 prettyPrint this
     = postProcess_part000 (prettyPrint (formatterParams this) (preProcess (xmlContent this)))
   \<and> (CHR ''<'' \<in> set content \<longrightarrow>
        preProcess content = normalizeLineEndings (dropWhile (\<lambda>c. c \<noteq> CHR ''<'') content)
        \<and> hd (preProcess content) = CHR ''<'')"
proof -
  have "hd (preProcess content) = CHR ''<''" if "CHR ''<'' \<in> set content"
  proof -
    from that have ne: "dropWhile (\<lambda>c. c \<noteq> CHR ''<'') content \<noteq> []" by simp
    then obtain cs where d: "dropWhile (\<lambda>c. c \<noteq> CHR ''<'') content = CHR ''<'' # cs"
      using hd_dropWhile[OF ne] by (cases "dropWhile (\<lambda>c. c \<noteq> CHR ''<'') content") auto
    show ?thesis
      using that by (simp add: preProcess_eq normalizeLineEndings_crlf_spec d hd_crlf_spec)
  qed
  then show ?thesis
    by (simp add: indentXML_cpp_def indentXML_part000_def preProcess_eq)
qed

theorem indentXML_trims_to_first_lt_witness:
  "CHR ''<'' \<in> set ([CHR 0xEF, CHR 0xBB, CHR 0xBF] @ '' <a/>'')
   \<and> preProcess ([CHR 0xEF, CHR 0xBB, CHR 0xBF] @ '' <a/>'') = ''<a/>''"
  using indentXML_trims_to_first_lt[of prettyPrint_oneLine "XmlIndenter_default []"
      "[CHR 0xEF, CHR 0xBB, CHR 0xBF] @ '' <a/>''"]
  by (simp add: normalizeLineEndings_crlf_spec)

section \<open>The \<^verbatim>\<open>/>\<close> loop\<close>

lemma sc_pass_hit:
  "prefix ''/>'' s \<Longrightarrow>
   sc_pass prev s = (if needs_space prev then '' />'' else ''/>'') @ sc_pass (Some (CHR ''>'')) (drop 2 s)"
  by (cases "(prev, s)" rule: sc_pass.cases) (auto simp: prefix_def)

lemma sc_pass_miss:
  "\<not> prefix ''/>'' (c # cs) \<Longrightarrow> sc_pass prev (c # cs) = c # sc_pass (Some c) cs"
  by (cases cs) auto

lemma sc_pass_skip:
  "\<forall>j<i. \<not> prefix ''/>'' (drop j s) \<Longrightarrow> i \<le> length s \<Longrightarrow>
   sc_pass prev s = take i s @ sc_pass (if i = 0 then prev else Some (s ! (i - 1))) (drop i s)"
proof (induction i arbitrary: s prev)
  case 0
  then show ?case by simp
next
  case (Suc i)
  then obtain c cs where s: "s = c # cs" by (cases s) auto
  from Suc.prems(1) have "\<not> prefix ''/>'' (drop 0 s)" by blast
  then have np: "\<not> prefix ''/>'' (c # cs)" by (simp add: s)
  have nf: "\<forall>j<i. \<not> prefix ''/>'' (drop j cs)"
    using Suc.prems(1) s by (metis Suc_less_eq drop_Suc_Cons)
  have il: "i \<le> length cs" using Suc.prems(2) s by simp
  have "sc_pass prev s = c # sc_pass (Some c) cs"
    using np by (simp add: s sc_pass_miss)
  also have "sc_pass (Some c) cs
             = take i cs @ sc_pass (if i = 0 then Some c else Some (cs ! (i - 1))) (drop i cs)"
    by (rule Suc.IH[OF nf il])
  also have "(if i = 0 then Some c else Some (cs ! (i - 1))) = Some (s ! (Suc i - 1))"
    by (cases i) (simp_all add: s)
  finally show ?case by (simp add: s)
qed

lemma selfClosing_loop_eq:
  "pos \<le> length s \<Longrightarrow>
   selfClosing_loop s pos = take pos s @ sc_pass (prev_at s pos) (drop pos s)"
proof (induction s pos rule: selfClosing_loop.induct)
  case (1 resultStr pos)
  show ?case
  proof (cases "str_find resultStr ''/>'' pos")
    case None
    with "1.prems" have sn: "search ''/>'' (drop pos resultStr) = None"
      by (simp add: str_find_def)
    have "sc_pass (prev_at resultStr pos) (drop pos resultStr)
          = take (length (drop pos resultStr)) (drop pos resultStr)
            @ sc_pass (if length (drop pos resultStr) = 0 then prev_at resultStr pos
                       else Some (drop pos resultStr ! (length (drop pos resultStr) - 1)))
                (drop (length (drop pos resultStr)) (drop pos resultStr))"
      by (rule sc_pass_skip) (use search_None[OF sn] in auto)
    then have "sc_pass (prev_at resultStr pos) (drop pos resultStr) = drop pos resultStr"
      by simp
    with None show ?thesis by (subst selfClosing_loop.simps) simp
  next
    case (Some p)
    with "1.prems" obtain i where
      i: "search ''/>'' (drop pos resultStr) = Some i" "p = pos + i"
      by (auto simp: str_find_def)
    note hit = search_Some[OF i(1)]
    have bound: "p + 2 \<le> length resultStr" using hit i(2) "1.prems" by auto
    have nf: "\<forall>j<i. \<not> prefix ''/>'' (drop j (drop pos resultStr))"
      using search_first[OF i(1)] by blast
    have il: "i \<le> length (drop pos resultStr)" using hit by linarith
    have pfx: "prefix ''/>'' (drop p resultStr)"
      using hit by (simp add: i(2) add.commute)
    have pv: "(if i = 0 then prev_at resultStr pos else Some (drop pos resultStr ! (i - 1)))
              = prev_at resultStr p"
      using "1.prems" bound i(2) by (cases i) (auto simp: prev_at_def)
    have skip: "sc_pass (prev_at resultStr pos) (drop pos resultStr)
                = take i (drop pos resultStr) @ sc_pass (prev_at resultStr p) (drop p resultStr)"
      using sc_pass_skip[OF nf il, of "prev_at resultStr pos"] pv
      by (simp add: i(2) add.commute)
    have tk: "take p resultStr = take pos resultStr @ take i (drop pos resultStr)"
      by (simp add: i(2) take_add)
    have target: "take pos resultStr @ sc_pass (prev_at resultStr pos) (drop pos resultStr)
                  = take p resultStr
                    @ (if needs_space (prev_at resultStr p) then '' />'' else ''/>'')
                    @ sc_pass (Some (CHR ''>'')) (drop (p + 2) resultStr)"
      using sc_pass_hit[OF pfx, of "prev_at resultStr p"] by (simp add: skip tk add.commute)
    show ?thesis
    proof (cases "p > 0 \<and> resultStr ! (p - 1) \<noteq> SPACE \<and> resultStr ! (p - 1) \<noteq> DQUOTE")
      case True
      let ?r = "str_replace resultStr p (length ''/>'') '' />''"
      have ns: "needs_space (prev_at resultStr p)"
        using True by (simp add: needs_space_def prev_at_def)
      have le: "p + length '' />'' \<le> length ?r" using bound by (simp add: str_replace_def)
      have t3: "take (p + length '' />'') ?r = take p resultStr @ '' />''"
        using bound by (simp add: str_replace_def)
      have d3: "drop (p + length '' />'') ?r = drop (p + 2) resultStr"
        using bound by (simp add: str_replace_def)
      have pr: "prev_at ?r (p + length '' />'') = Some (CHR ''>'')"
        using bound by (simp add: prev_at_def str_replace_def nth_append)
      have "selfClosing_loop resultStr pos = selfClosing_loop ?r (p + length '' />'')"
        using Some True by (subst selfClosing_loop.simps) simp
      also have "\<dots> = take (p + length '' />'') ?r
                       @ sc_pass (prev_at ?r (p + length '' />'')) (drop (p + length '' />'') ?r)"
        by (rule "1.IH"(1)[OF Some True le])
      also have "\<dots> = take p resultStr @ '' />'' @ sc_pass (Some (CHR ''>'')) (drop (p + 2) resultStr)"
        unfolding t3 d3 pr by simp
      finally show ?thesis using ns target by simp
    next
      case False
      have ns: "\<not> needs_space (prev_at resultStr p)"
        using False by (auto simp: needs_space_def prev_at_def)
      have le: "p + length ''/>'' \<le> length resultStr" using bound by simp
      have pn: "resultStr ! (p + 1) = CHR ''>''" "resultStr ! p = CHR ''/''"
        using pfx bound by (auto simp: prefix_def dest!: arg_cong[where f="\<lambda>l. (l ! 0, l ! 1)"] simp: nth_append)
      have pr: "prev_at resultStr (p + length ''/>'') = Some (CHR ''>'')"
        using pn by (simp add: prev_at_def)
      have t2: "take (p + length ''/>'') resultStr = take p resultStr @ ''/>''"
        using bound pn by (simp add: take_Suc_conv_app_nth)
      have "selfClosing_loop resultStr pos = selfClosing_loop resultStr (p + length ''/>'')"
        using Some False by (subst selfClosing_loop.simps) auto
      also have "\<dots> = take (p + length ''/>'') resultStr
                       @ sc_pass (prev_at resultStr (p + length ''/>'')) (drop (p + length ''/>'') resultStr)"
        by (rule "1.IH"(2)[OF Some False le])
      also have "\<dots> = take p resultStr @ ''/>'' @ sc_pass (Some (CHR ''>'')) (drop (p + 2) resultStr)"
        unfolding t2 pr by simp
      finally show ?thesis using ns target by simp
    qed
  qed
qed

lemma selfClosing_loop_0: "selfClosing_loop s 0 = sc_pass None s"
  using selfClosing_loop_eq[of 0 s] by (simp add: prev_at_def)

section \<open>A space in front of every \<^verbatim>\<open>/>\<close>\<close>

lemma spaced_after_nth:
  "spaced_after prev s \<Longrightarrow> i < length s \<Longrightarrow> prefix ''/>'' (drop i s) \<Longrightarrow>
   (if i = 0 then prev else s ! (i - 1)) = SPACE"
proof (induction s arbitrary: prev i)
  case Nil
  then show ?case by simp
next
  case (Cons c cs)
  show ?case
  proof (cases i)
    case 0
    with Cons.prems show ?thesis by simp
  next
    case (Suc j)
    with Cons.prems have "spaced_after c cs" "j < length cs" "prefix ''/>'' (drop j cs)"
      by simp_all
    from Cons.IH[OF this] Suc show ?thesis by (cases j) simp_all
  qed
qed

lemma spaced_after_every: "spaced_after prev s \<Longrightarrow> every_slashGt_after_space s"
  unfolding every_slashGt_after_space_def
  using spaced_after_nth[of prev s] by fastforce

lemma spaced_after_prev: "spaced_after x t \<Longrightarrow> x \<noteq> SPACE \<Longrightarrow> spaced_after y t"
  by (cases t) auto

lemma spaced_after_SPACE: "spaced_after x t \<Longrightarrow> spaced_after SPACE t"
  by (cases t) auto

lemma sc_pass_Some_SPACE: "sc_pass None s = sc_pass (Some SPACE) s"
  by (cases "(Some SPACE, s)" rule: sc_pass.cases) (auto simp: needs_space_def)

lemma sc_pass_hd:
  "prefix ''/>'' (c # sc_pass (Some c) cs) \<Longrightarrow> prefix ''/>'' (c # cs)"
  by (cases "(Some c, cs)" rule: sc_pass.cases) (auto simp: needs_space_def split: if_splits)

lemma sc_spaced: "no_quote_before x s \<Longrightarrow> spaced_after x (sc_pass (Some x) s)"
proof (induction "Some x" s arbitrary: x rule: sc_pass.induct)
  case 1
  then show ?case by simp
next
  case (2 c)
  then show ?case by simp
next
  case (3 c d cs)
  show ?case
  proof (cases "c = CHR ''/'' \<and> d = CHR ''>''")
    case True
    from "3.prems" True have nq: "no_quote_before (CHR ''>'') cs" "x \<noteq> DQUOTE" by auto
    from "3.hyps"(1)[OF True nq(1)] have "spaced_after (CHR ''>'') (sc_pass (Some (CHR ''>'')) cs)" .
    with True nq(2) show ?thesis by (auto simp: needs_space_def)
  next
    case False
    from "3.prems" have nq: "no_quote_before c (d # cs)" by simp
    from "3.hyps"(2)[OF False nq] have ih: "spaced_after c (sc_pass (Some c) (d # cs))" .
    have np: "\<not> prefix ''/>'' (c # sc_pass (Some c) (d # cs))"
      using sc_pass_hd[of c "d # cs"] False by auto
    have eq: "sc_pass (Some x) (c # d # cs) = c # sc_pass (Some c) (d # cs)"
      using False by auto
    show ?thesis unfolding eq spaced_after.simps using ih np by blast
  qed
qed

lemma prefix_slash_gt_Cons: "prefix ''/>'' (c # t) \<longleftrightarrow> c = CHR ''/'' \<and> prefix ''>'' t"
  by auto

lemma replace_spec_hd:
  assumes "prefix [y] (replace_spec f t s)" "t \<noteq> []" "hd t \<noteq> y"
  shows "prefix [y] s"
proof (cases s)
  case Nil
  with assms(1) show ?thesis by simp
next
  case (Cons c cs)
  obtain a t' where t: "t = a # t'" "a \<noteq> y"
    using assms(2,3) by (cases t) auto
  show ?thesis
  proof (cases "f \<noteq> [] \<and> prefix f (c # cs)")
    case True
    then have "replace_spec f t s = a # t' @ replace_spec f t (drop (length f) (c # cs))"
      by (simp add: Cons t)
    with assms(1) t(2) show ?thesis by simp
  next
    case False
    then have "replace_spec f t s = c # replace_spec f t cs"
      by (auto simp: Cons)
    with assms(1) show ?thesis by (simp add: Cons)
  qed
qed

lemma quote_replaced:
  "\<not> (x = DQUOTE \<and> prefix ''/>'' s) \<Longrightarrow>
   no_quote_before x (replace_spec (DQUOTE # ''/>'') (DQUOTE # '' />'') s)"
proof (induction "DQUOTE # ''/>''" "DQUOTE # '' />''" s arbitrary: x rule: replace_spec.induct)
  case 1
  then show ?case by simp
next
  case (2 c cs)
  show ?case
  proof (cases "prefix (DQUOTE # ''/>'') (c # cs)")
    case True
    have "no_quote_before (CHR ''>'') (replace_spec (DQUOTE # ''/>'') (DQUOTE # '' />'') (drop (length (DQUOTE # ''/>'')) (c # cs)))"
      by (rule "2.hyps"(1)) (use True in auto)
    with True show ?thesis by auto
  next
    case False
    have ih: "no_quote_before c (replace_spec (DQUOTE # ''/>'') (DQUOTE # '' />'') cs)"
      by (rule "2.hyps"(2)) (use False in auto)
    have "\<not> prefix ''/>'' (c # replace_spec (DQUOTE # ''/>'') (DQUOTE # '' />'') cs)" if "x = DQUOTE"
    proof
      assume p: "prefix ''/>'' (c # replace_spec (DQUOTE # ''/>'') (DQUOTE # '' />'') cs)"
      from p have c: "c = CHR ''/''"
        and p2: "prefix ''>'' (replace_spec (DQUOTE # ''/>'') (DQUOTE # '' />'') cs)"
        unfolding prefix_slash_gt_Cons by blast+
      have "prefix ''>'' cs"
        by (rule replace_spec_hd[OF p2]) simp_all
      with c have "prefix ''/>'' (c # cs)" by simp
      with "2.prems" that show False by simp
    qed
    with ih False show ?thesis by auto
  qed
qed

lemma lt_slash_gt_replaced:
  "no_quote_before x s \<Longrightarrow> no_quote_before x (replace_spec ''</>'' ''< />'' s)"
proof (induction "''</>''" "''< />''" s arbitrary: x rule: replace_spec.induct)
  case 1
  then show ?case by simp
next
  case (2 c cs)
  show ?case
  proof (cases "prefix ''</>'' (c # cs)")
    case True
    then obtain r where r: "c # cs = ''</>'' @ r" by (auto simp: prefix_def)
    with "2.prems" have "no_quote_before (CHR ''>'') r" by auto
    then have "no_quote_before (CHR ''>'') (drop (length ''</>'') (c # cs))" by (simp add: r)
    from "2.hyps"(1)[OF _ this] True
    have "no_quote_before (CHR ''>'') (replace_spec ''</>'' ''< />'' (drop (length ''</>'') (c # cs)))"
      by simp
    with True show ?thesis by simp
  next
    case False
    from "2.prems" have nq: "no_quote_before c cs" by simp
    from "2.hyps"(2)[OF _ nq] False
    have ih: "no_quote_before c (replace_spec ''</>'' ''< />'' cs)" by simp
    have "\<not> prefix ''/>'' (c # replace_spec ''</>'' ''< />'' cs)" if "x = DQUOTE"
    proof
      assume p: "prefix ''/>'' (c # replace_spec ''</>'' ''< />'' cs)"
      from p have c: "c = CHR ''/''"
        and p2: "prefix ''>'' (replace_spec ''</>'' ''< />'' cs)"
        unfolding prefix_slash_gt_Cons by blast+
      have "prefix ''>'' cs"
        by (rule replace_spec_hd[OF p2]) simp_all
      with c have "prefix ''/>'' (c # cs)" by simp
      with "2.prems" that show False by simp
    qed
    with ih False show ?thesis by auto
  qed
qed

lemma crlf_spec_hd:
  "prefix ''/>'' (c # crlf_spec cs) \<Longrightarrow> prefix ''/>'' (c # cs)"
  by (cases cs rule: crlf_spec.cases) (auto split: if_splits)

lemma crlf_spaced: "spaced_after x s \<Longrightarrow> spaced_after x (crlf_spec s)"
proof (induction s arbitrary: x rule: crlf_spec.induct)
  case 1
  then show ?case by simp
next
  case (2 c)
  then show ?case by auto
next
  case (3 c d cs)
  show ?case
  proof (cases "c = CR \<and> d = LF")
    case True
    with "3.prems" have "spaced_after LF cs" by simp
    from "3.IH"(1)[OF True this] True show ?thesis by simp
  next
    case nb: False
    show ?thesis
    proof (cases "c = CR \<or> c = LF")
      case True
      from "3.prems" have "spaced_after c (d # cs)" by simp
      from "3.IH"(2)[OF nb True this] have "spaced_after c (crlf_spec (d # cs))" .
      then have "spaced_after LF (crlf_spec (d # cs))"
        using True by (auto intro: spaced_after_prev)
      with nb True show ?thesis by auto
    next
      case False
      from "3.prems" have "spaced_after c (d # cs)" by simp
      from "3.IH"(3)[OF nb False this] have ih: "spaced_after c (crlf_spec (d # cs))" .
      have "prefix ''/>'' (c # crlf_spec (d # cs)) \<Longrightarrow> x = SPACE"
        using crlf_spec_hd[of c "d # cs"] "3.prems" by auto
      with ih nb False show ?thesis by simp
    qed
  qed
qed

lemma postProcess_cpp_spaced:
  "every_slashGt_after_space (normalizeLineEndings (selfClosing_loop (patternsReplaced f) 0))"
proof -
  let ?y = "replace_spec ''><!--'' ''> <!--'' (replace_spec (''>'' @ [TAB] @ ''<!--'') ''> <!--'' f)"
  have "no_quote_before SPACE (replace_spec (DQUOTE # ''/>'') (DQUOTE # '' />'') ?y)"
    by (rule quote_replaced) simp
  then have "no_quote_before SPACE (patternsReplaced f)"
    unfolding patternsReplaced_def by (rule lt_slash_gt_replaced)
  then have "spaced_after SPACE (sc_pass (Some SPACE) (patternsReplaced f))"
    by (rule sc_spaced)
  then have "spaced_after SPACE (crlf_spec (selfClosing_loop (patternsReplaced f) 0))"
    by (simp add: selfClosing_loop_0 sc_pass_Some_SPACE crlf_spaced)
  then show ?thesis
    by (simp add: normalizeLineEndings_crlf_spec spaced_after_every)
qed

section \<open>Patterns the post-processing cannot create\<close>

lemma search_None_iff: "search pat s = None \<longleftrightarrow> \<not> sublist pat s"
  by (induction s) (auto simp: sublist_Cons_right)

lemma sublist_avoiding:
  assumes "c \<notin> set P"
  shows "sublist P (A @ c # B) \<longleftrightarrow> sublist P A \<or> sublist P B"
proof
  assume "sublist P (A @ c # B)"
  then consider "sublist P A" | "sublist P (c # B)"
    | xs1 xs2 where "P = xs1 @ xs2" "suffix xs1 A" "prefix xs2 (c # B)"
    unfolding sublist_append by blast
  then show "sublist P A \<or> sublist P B"
  proof cases
    case 1
    then show ?thesis by simp
  next
    case 2
    then have "prefix P (c # B) \<or> sublist P B" by (simp add: sublist_Cons_right)
    moreover have "prefix P (c # B) \<Longrightarrow> P = []"
      using assms by (cases P) auto
    ultimately show ?thesis by auto
  next
    case 3
    from 3(3) assms 3(1) have "xs2 = []" by (cases xs2) auto
    with 3(1,2) show ?thesis by auto
  qed
next
  assume "sublist P A \<or> sublist P B"
  then show "sublist P (A @ c # B)"
    by (metis sublist_Cons_right sublist_append)
qed

lemma sublist_part: "\<not> sublist P (A @ u @ B) \<Longrightarrow> \<not> sublist P A \<and> \<not> sublist P B"
  by (metis sublist_append)

lemma no_new_occurrence:
  assumes "SPACE \<notin> set P" "\<not> sublist P (A @ u @ B)"
  shows "\<not> sublist P (A @ SPACE # B)"
  using sublist_part[OF assms(2)] sublist_avoiding[OF assms(1), of A B] by simp

lemma replace_spec_no_new:
  assumes sp: "SPACE \<notin> set P"
  shows "F = a @ u @ b \<Longrightarrow> T = a @ SPACE # b \<Longrightarrow> \<not> sublist P (pre @ s) \<Longrightarrow>
         \<not> sublist P (pre @ replace_spec F T s)"
proof (induction F T s arbitrary: pre rule: replace_spec.induct)
  case (1 "from" to)
  then show ?case by simp
next
  case (2 "from" to c cs)
  note F' = "2.prems"(1) and T' = "2.prems"(2)
  show ?case
  proof (cases "from \<noteq> [] \<and> prefix from (c # cs)")
    case True
    then obtain rest where rest: "c # cs = from @ rest" by (auto simp: prefix_def)
    then have dr: "drop (length from) (c # cs) = rest" by (metis append_eq_conv_conj)
    from "2.prems"(3) have "\<not> sublist P ((pre @ a) @ u @ (b @ rest))"
      by (simp add: rest F')
    from no_new_occurrence[OF sp this] have nn: "\<not> sublist P ((pre @ to) @ rest)"
      by (simp add: T')
    have "\<not> sublist P ((pre @ to) @ replace_spec from to (drop (length from) (c # cs)))"
      by (rule "2.IH"(1)[OF True F' T']) (use nn in \<open>simp add: dr\<close>)
    with True show ?thesis by simp
  next
    case False
    from "2.prems"(3) have "\<not> sublist P ((pre @ [c]) @ cs)" by simp
    from "2.IH"(2)[OF False F' T' this] False show ?thesis by auto
  qed
qed

lemma sc_pass_no_new:
  assumes sp: "SPACE \<notin> set P"
  shows "\<not> sublist P (pre @ s) \<Longrightarrow> \<not> sublist P (pre @ sc_pass prev s)"
proof (induction prev s arbitrary: pre rule: sc_pass.induct)
  case (1 prev)
  then show ?case by simp
next
  case (2 prev c)
  then show ?case by simp
next
  case (3 prev c d cs)
  show ?case
  proof (cases "c = CHR ''/'' \<and> d = CHR ''>''")
    case True
    show ?thesis
    proof (cases "needs_space prev")
      case ns: True
      from "3.prems" True have "\<not> sublist P (pre @ [] @ (''/>'' @ cs))" by simp
      from no_new_occurrence[OF sp this] have "\<not> sublist P ((pre @ '' />'') @ cs)" by simp
      from "3.IH"(1)[OF True this] True ns show ?thesis by simp
    next
      case ns: False
      from "3.prems" True have "\<not> sublist P ((pre @ ''/>'') @ cs)" by simp
      from "3.IH"(1)[OF True this] True ns show ?thesis by simp
    qed
  next
    case False
    from "3.prems" have "\<not> sublist P ((pre @ [c]) @ d # cs)" by simp
    from "3.IH"(2)[OF False this] False show ?thesis by auto
  qed
qed

lemma patternsReplaced_no_new:
  assumes "SPACE \<notin> set P" "\<not> sublist P f"
  shows "\<not> sublist P (selfClosing_loop (patternsReplaced f) 0)"
proof -
  let ?r1 = "replace_spec (''>'' @ [TAB] @ ''<!--'') ''> <!--'' f"
  let ?r2 = "replace_spec ''><!--'' ''> <!--'' ?r1"
  let ?r3 = "replace_spec (DQUOTE # ''/>'') (DQUOTE # '' />'') ?r2"
  let ?r4 = "replace_spec ''</>'' ''< />'' ?r3"
  have 1: "\<not> sublist P ([] @ ?r1)"
    by (rule replace_spec_no_new[OF assms(1), where a = "''>''" and u = "[TAB]" and b = "''<!--''"])
       (use assms(2) in simp_all)
  have 2: "\<not> sublist P ([] @ ?r2)"
    by (rule replace_spec_no_new[OF assms(1), where a = "''>''" and u = "[]" and b = "''<!--''"])
       (use 1 in simp_all)
  have 3: "\<not> sublist P ([] @ ?r3)"
    by (rule replace_spec_no_new[OF assms(1), where a = "[DQUOTE]" and u = "[]" and b = "''/>''"])
       (use 2 in simp_all)
  have 4: "\<not> sublist P ([] @ ?r4)"
    by (rule replace_spec_no_new[OF assms(1), where a = "''<''" and u = "[]" and b = "''/>''"])
       (use 3 in simp_all)
  have "\<not> sublist P ([] @ sc_pass None ?r4)"
    by (rule sc_pass_no_new[OF assms(1)]) (use 4 in simp)
  then show ?thesis by (simp add: selfClosing_loop_0 patternsReplaced_def)
qed

lemma formatSingleLineComments_no_comment:
  "\<not> sublist ''<!--'' t \<Longrightarrow> formatSingleLineComments t = t"
proof -
  assume "\<not> sublist ''<!--'' t"
  then have "str_find t ''<!--'' 0 = None"
    by (simp add: str_find_def search_None_iff)
  then show ?thesis
    unfolding formatSingleLineComments_def
    by (subst formatSingleLineComments_loop.simps) simp
qed

section \<open>The comment pass\<close>

lemma takeWhile_shorter: "\<exists>x\<in>set xs. \<not> P x \<Longrightarrow> length (takeWhile P xs) < length xs"
  by (induction xs) auto

lemma trimComment_eq: "trimComment c = trim_spaces c"
proof (cases "list_all (\<lambda>x. x = SPACE) c")
  case True
  then have d: "dropWhile (\<lambda>c. c = SPACE) c = []"
    by (induction c) auto
  have ts: "trim_spaces c = []"
    unfolding trim_spaces_def d by simp
  have "trimComment c = []"
    using True by (simp add: trimComment_def find_first_not_of_def find_last_not_of_def)
  with ts show ?thesis by simp
next
  case False
  let ?sp = "\<lambda>c. c = SPACE"
  let ?a = "length (takeWhile ?sp c)"
  let ?k = "length (takeWhile ?sp (rev c))"
  let ?d = "dropWhile ?sp c"
  from False have dne: "?d \<noteq> []" by (simp add: list_all_iff)
  have c: "c = takeWhile ?sp c @ ?d" by simp
  have ex: "\<exists>x\<in>set (rev ?d). \<not> ?sp x"
    using dne hd_dropWhile[OF dne] by (metis hd_in_set set_rev)
  have "rev c = rev ?d @ rev (takeWhile ?sp c)" by (subst c) (simp only: rev_append)
  then have "takeWhile ?sp (rev c) = takeWhile ?sp (rev ?d @ rev (takeWhile ?sp c))" by simp
  also have "\<dots> = takeWhile ?sp (rev ?d)"
  proof -
    from ex obtain x where "x \<in> set (rev ?d)" "\<not> ?sp x" by blast
    then show ?thesis by (rule takeWhile_append1)
  qed
  finally have k: "?k = length (takeWhile ?sp (rev ?d))" by simp
  have kl: "?k < length ?d"
    using takeWhile_shorter[OF ex] k by simp
  have la: "length ?d = length c - ?a"
    by (simp add: dropWhile_eq_drop)
  have cnt: "length c - 1 - ?k - ?a + 1 = length ?d - ?k"
    using kl la by linarith
  have "trimComment c = take (length c - 1 - ?k - ?a + 1) (drop ?a c)"
    using False
    by (simp add: trimComment_def find_first_not_of_def find_last_not_of_def str_substr_def)
  also have "\<dots> = take (length ?d - ?k) ?d"
    by (simp only: cnt dropWhile_eq_drop)
  also have "\<dots> = rev (drop ?k (rev ?d))"
    by (simp add: rev_drop)
  also have "drop ?k (rev ?d) = dropWhile ?sp (rev ?d)"
    by (simp only: k dropWhile_eq_drop)
  finally show ?thesis by (simp add: trim_spaces_def)
qed

lemma collapse_loop_eq: "collapse_loop cs acc l = acc @ collapse_from l cs"
  by (induction cs acc l rule: collapse_loop.induct) auto

lemma collapse_spaces_nonspace:
  "c \<noteq> SPACE \<Longrightarrow> collapse_spaces (c # cs) = c # collapse_spaces cs"
  by (cases cs) auto

lemma collapse_spaces_hd: "collapse_spaces (c # cs) = c # tl (collapse_spaces (c # cs))"
proof (induction cs arbitrary: c)
  case Nil
  then show ?case by simp
next
  case (Cons d cs)
  show ?case
  proof (cases "c = SPACE \<and> d = SPACE")
    case True
    with Cons[of d] show ?thesis by simp
  next
    case False
    then show ?thesis by auto
  qed
qed

lemma collapse_from_spec:
  "collapse_from False cs = collapse_spaces cs
   \<and> collapse_from True cs = tl (collapse_spaces (SPACE # cs))"
proof (induction cs)
  case Nil
  then show ?case by simp
next
  case (Cons c cs)
  show ?case
  proof (cases "c = SPACE")
    case True
    have "collapse_spaces (SPACE # cs) = SPACE # tl (collapse_spaces (SPACE # cs))"
      by (rule collapse_spaces_hd)
    with Cons True show ?thesis by simp
  next
    case False
    with Cons show ?thesis by (simp add: collapse_spaces_nonspace)
  qed
qed

lemma rewriteComment_eq:
  "rewriteComment body = comment_wrap (collapse_spaces (trim_spaces body))"
  by (simp add: rewriteComment_def comment_wrap_def collapse_loop_eq collapse_from_spec trimComment_eq)

lemma str_find_shift:
  "pos \<le> length s \<Longrightarrow>
   str_find (pre @ s) pat (length pre + pos) = map_option (\<lambda>i. length pre + i) (str_find s pat pos)"
  by (cases "search pat (drop pos s)") (simp_all add: str_find_def)

lemma str_substr_shift: "str_substr (pre @ s) (length pre + p) n = str_substr s p n"
  by (simp add: str_substr_def)

lemma str_replace_shift:
  "str_replace (pre @ s) (length pre + p) n t = pre @ str_replace s p n t"
  by (simp add: str_replace_def add.assoc)

lemma size_t_sub_shift: "size_t_sub (k + a) (k + b) = size_t_sub a b"
  by (simp add: size_t_sub_def)

lemma fsl_step_done:
  "str_find r ''<!--'' pos0 = None \<Longrightarrow> formatSingleLineComments_loop r pos0 = r"
  by (subst formatSingleLineComments_loop.simps) simp

lemma fsl_step_unterminated:
  "str_find r ''<!--'' pos0 = Some pos \<Longrightarrow> str_find r ''-->'' pos = None \<Longrightarrow>
   formatSingleLineComments_loop r pos0 = formatSingleLineComments_loop r (pos + 4)"
  by (subst formatSingleLineComments_loop.simps) simp

lemma fsl_step_single:
  "str_find r ''<!--'' pos0 = Some pos \<Longrightarrow> str_find r ''-->'' pos = Some endPos \<Longrightarrow>
   str_find (str_substr r pos (endPos - pos + 3)) [LF] 0 = None
     \<and> str_find (str_substr r pos (endPos - pos + 3)) [CR] 0 = None \<Longrightarrow>
   nc = rewriteComment (str_substr r (pos + 4) (size_t_sub endPos (pos + 4))) \<Longrightarrow>
   formatSingleLineComments_loop r pos0
     = formatSingleLineComments_loop (str_replace r pos (endPos - pos + 3) nc) (pos + length nc)"
  by (subst formatSingleLineComments_loop.simps) (simp add: Let_def)

lemma fsl_step_multi:
  "str_find r ''<!--'' pos0 = Some pos \<Longrightarrow> str_find r ''-->'' pos = Some endPos \<Longrightarrow>
   \<not> (str_find (str_substr r pos (endPos - pos + 3)) [LF] 0 = None
     \<and> str_find (str_substr r pos (endPos - pos + 3)) [CR] 0 = None) \<Longrightarrow>
   formatSingleLineComments_loop r pos0 = formatSingleLineComments_loop r (endPos + 3)"
  by (subst formatSingleLineComments_loop.simps) (auto simp add: Let_def)

lemma formatSingleLineComments_loop_shift:
  "pos \<le> length s \<Longrightarrow>
   formatSingleLineComments_loop (pre @ s) (length pre + pos)
     = pre @ formatSingleLineComments_loop s pos"
proof (induction s pos rule: formatSingleLineComments_loop.induct)
  case (1 result pos0)
  show ?case
  proof (cases "str_find result ''<!--'' pos0")
    case None
    then have "str_find (pre @ result) ''<!--'' (length pre + pos0) = None"
      using "1.prems" by (simp add: str_find_shift)
    with None show ?thesis by (simp add: fsl_step_done)
  next
    case (Some pos)
    note f1 = str_find_Some[OF Some]
    have s1: "str_find (pre @ result) ''<!--'' (length pre + pos0) = Some (length pre + pos)"
      using "1.prems" Some by (simp add: str_find_shift)
    have ple: "pos \<le> length result" using f1 by simp
    show ?thesis
    proof (cases "str_find result ''-->'' pos")
      case None
      have s2: "str_find (pre @ result) ''-->'' (length pre + pos) = None"
        using ple None by (simp add: str_find_shift)
      have le: "pos + 4 \<le> length result" using f1 by simp
      have "formatSingleLineComments_loop (pre @ result) (length pre + pos0)
            = formatSingleLineComments_loop (pre @ result) (length pre + pos + 4)"
        by (rule fsl_step_unterminated[OF s1 s2])
      also have "length pre + pos + 4 = length pre + (pos + 4)" by simp
      also have "formatSingleLineComments_loop (pre @ result) (length pre + (pos + 4))
                 = pre @ formatSingleLineComments_loop result (pos + 4)"
        by (rule "1.IH"(1)[OF Some None le])
      also have "formatSingleLineComments_loop result (pos + 4)
                 = formatSingleLineComments_loop result pos0"
        by (rule fsl_step_unterminated[OF Some None, symmetric])
      finally show ?thesis .
    next
      case e: (Some endPos)
      note f2 = str_find_Some[OF e]
      have s2: "str_find (pre @ result) ''-->'' (length pre + pos) = Some (length pre + endPos)"
        using ple e by (simp add: str_find_shift)
      define ct where "ct = str_substr result pos (endPos - pos + 3)"
      define cc where "cc = str_substr result (pos + 4) (size_t_sub endPos (pos + 4))"
      define nc where "nc = rewriteComment cc"
      define r where "r = str_replace result pos (endPos - pos + 3) nc"
      have n3: "length pre + endPos - (length pre + pos) + 3 = endPos - pos + 3" by simp
      have ct: "str_substr (pre @ result) (length pre + pos)
                  (length pre + endPos - (length pre + pos) + 3) = ct"
        unfolding n3 ct_def by (rule str_substr_shift)
      have cc: "str_substr (pre @ result) (length pre + pos + 4)
                  (size_t_sub (length pre + endPos) (length pre + pos + 4)) = cc"
      proof -
        have a: "length pre + pos + 4 = length pre + (pos + 4)" by simp
        show ?thesis
          unfolding cc_def a
          by (simp only: str_substr_shift size_t_sub_shift)
      qed
      have rr: "str_replace (pre @ result) (length pre + pos)
                  (length pre + endPos - (length pre + pos) + 3) nc = pre @ r"
        unfolding n3 r_def by (rule str_replace_shift)
      show ?thesis
      proof (cases "str_find ct [LF] 0 = None \<and> str_find ct [CR] 0 = None")
        case True
        have "length r = pos + length nc + (length result - (endPos + 3))"
          using f1 f2 by (simp add: r_def str_replace_def)
        then have le: "pos + length nc \<le> length r"
          by linarith
        have "formatSingleLineComments_loop (pre @ result) (length pre + pos0)
              = formatSingleLineComments_loop
                  (str_replace (pre @ result) (length pre + pos)
                     (length pre + endPos - (length pre + pos) + 3) nc)
                  (length pre + pos + length nc)"
          by (rule fsl_step_single[OF s1 s2]) (use True in \<open>simp_all only: ct cc nc_def\<close>)
        also have "\<dots> = formatSingleLineComments_loop (pre @ r) (length pre + (pos + length nc))"
          unfolding rr by (simp only: add.assoc)
        also have "\<dots> = pre @ formatSingleLineComments_loop r (pos + length nc)"
          unfolding r_def
          by (rule "1.IH"(2)[OF Some e ct_def True cc_def nc_def le[unfolded r_def]])
        also have "formatSingleLineComments_loop r (pos + length nc)
                   = formatSingleLineComments_loop result pos0"
          unfolding r_def
          by (rule fsl_step_single[OF Some e, symmetric])
             (use True in \<open>simp_all only: ct_def cc_def nc_def\<close>)
        finally show ?thesis .
      next
        case False
        have le: "endPos + 3 \<le> length result" using f2 by simp
        have "formatSingleLineComments_loop (pre @ result) (length pre + pos0)
              = formatSingleLineComments_loop (pre @ result) (length pre + endPos + 3)"
          by (rule fsl_step_multi[OF s1 s2]) (unfold ct, rule False)
        also have "length pre + endPos + 3 = length pre + (endPos + 3)" by simp
        also have "formatSingleLineComments_loop (pre @ result) (length pre + (endPos + 3))
                   = pre @ formatSingleLineComments_loop result (endPos + 3)"
          by (rule "1.IH"(3)[OF Some e ct_def False le])
        also have "formatSingleLineComments_loop result (endPos + 3)
                   = formatSingleLineComments_loop result pos0"
          by (rule fsl_step_multi[OF Some e, symmetric]) (fold ct_def, rule False)
        finally show ?thesis .
      qed
    qed
  qed
qed

lemma str_find_None_mono:
  "str_find s pat pos = None \<Longrightarrow> pos \<le> p \<Longrightarrow> str_find s pat p = None"
proof -
  assume a: "str_find s pat pos = None" "pos \<le> p"
  show ?thesis
  proof (cases "p \<le> length s")
    case False
    then show ?thesis by (simp add: str_find_def)
  next
    case True
    with a have n: "search pat (drop pos s) = None" by (simp add: str_find_def)
    have "\<not> prefix pat (drop j (drop p s))" for j
      using search_None[OF n, of "j + (p - pos)"] a(2) by (simp add: add.commute add.left_commute)
    then have "search pat (drop p s) = None"
      by (metis search_Some not_None_eq)
    with True show ?thesis by (simp add: str_find_def)
  qed
qed

lemma formatSingleLineComments_loop_unterminated:
  "str_find s ''-->'' pos = None \<Longrightarrow> pos \<le> pos' \<Longrightarrow> formatSingleLineComments_loop s pos' = s"
proof (induction s pos' rule: formatSingleLineComments_loop.induct)
  case (1 result pos0)
  show ?case
  proof (cases "str_find result ''<!--'' pos0")
    case None
    then show ?thesis by (rule fsl_step_done)
  next
    case (Some p)
    from str_find_Some[OF Some] "1.prems"(2) have "pos \<le> p" by simp
    from str_find_None_mono[OF "1.prems"(1) this] have n: "str_find result ''-->'' p = None" .
    have "formatSingleLineComments_loop result pos0 = formatSingleLineComments_loop result (p + 4)"
      by (rule fsl_step_unterminated[OF Some n])
    also have "\<dots> = result"
      using "1.IH"(1)[OF Some n "1.prems"(1)] \<open>pos \<le> p\<close> by simp
    finally show ?thesis .
  qed
qed

lemma str_find_char_0: "str_find s [c] 0 = None \<longleftrightarrow> c \<notin> set s"
  by (simp add: str_find_def search_char_eq)

lemma not_sublist_drop: "\<not> sublist P s \<Longrightarrow> \<not> sublist P (drop n s)"
  by (meson sublist_drop sublist_order.order_trans)

lemma prefix_split: "prefix p s \<Longrightarrow> s = p @ drop (length p) s"
  by (auto simp: prefix_def)

lemma opener_split:
  assumes "prefix ''<!--'' (drop i s)"
  shows "drop i s = ''<!--'' @ drop (i + 4) s"
proof -
  have "drop i s = ''<!--'' @ drop (length ''<!--'') (drop i s)"
    by (rule prefix_split[OF assms])
  also have "drop (length ''<!--'') (drop i s) = drop (i + 4) s"
    by (simp add: eval_nat_numeral)
  finally show ?thesis .
qed

lemma terminator_behind_opener:
  assumes op: "prefix ''<!--'' (drop i s)"
    and n1: "\<not> sublist ''<!-->'' s" and n2: "\<not> sublist ''<!--->'' s"
    and il: "i \<le> length s"
  shows "str_find s ''-->'' i = map_option (\<lambda>j. i + 4 + j) (search ''-->'' (drop (i + 4) s))"
proof -
  let ?D = "drop (i + 4) s"
  have d: "drop i s = ''<!--'' @ ?D"
    by (rule opener_split[OF op])
  have p1: "\<not> prefix ''>'' ?D"
  proof
    assume "prefix ''>'' ?D"
    then have "prefix ''<!-->'' (drop i s)" by (subst d) simp
    then have "sublist ''<!-->'' (drop i s)" by (rule prefix_imp_sublist)
    with not_sublist_drop[OF n1] show False by blast
  qed
  have p2: "\<not> prefix ''->'' ?D"
  proof
    assume "prefix ''->'' ?D"
    then have "prefix ''<!--->'' (drop i s)" by (subst d) simp
    then have "sublist ''<!--->'' (drop i s)" by (rule prefix_imp_sublist)
    with not_sublist_drop[OF n2] show False by blast
  qed
  have "search ''-->'' (drop i s) = map_option (\<lambda>j. 4 + j) (search ''-->'' ?D)"
    using p1 p2 by (subst d) (cases "search ''-->'' ?D"; simp)
  then show ?thesis
    using il by (simp add: str_find_def option.map_comp comp_def add.assoc)
qed

lemma formatSingleLineComments_loop_spec:
  "\<not> sublist ''<!-->'' s \<Longrightarrow> \<not> sublist ''<!--->'' s \<Longrightarrow>
   formatSingleLineComments_loop s 0 = comments_spec s"
proof (induction s rule: comments_spec.induct)
  case (1 s)
  show ?case
  proof (cases "search ''<!--'' s")
    case None
    then have "str_find s ''<!--'' 0 = None" by (simp add: str_find_def)
    then have "formatSingleLineComments_loop s 0 = s" by (rule fsl_step_done)
    with None show ?thesis by (subst comments_spec.simps) simp
  next
    case (Some i)
    note hit = search_Some[OF Some]
    have f1: "str_find s ''<!--'' 0 = Some i" using Some by (simp add: str_find_def)
    have il: "i \<le> length s" "i + 4 \<le> length s" using hit by simp_all
    let ?D = "drop (i + 4) s"
    have d: "drop i s = ''<!--'' @ ?D"
      by (rule opener_split[OF conjunct2[OF hit]])
    note tb = terminator_behind_opener[OF conjunct2[OF hit] "1.prems" il(1)]
    show ?thesis
    proof (cases "search ''-->'' ?D")
      case None
      with tb have f2: "str_find s ''-->'' i = None" by simp
      have "formatSingleLineComments_loop s 0 = formatSingleLineComments_loop s (i + 4)"
        by (rule fsl_step_unterminated[OF f1 f2])
      also have "\<dots> = s"
        by (rule formatSingleLineComments_loop_unterminated[OF f2]) simp
      finally show ?thesis using Some None by (subst comments_spec.simps) simp
    next
      case j: (Some j)
      note hit2 = search_Some[OF j]
      define body where "body = take j ?D"
      define rest where "rest = drop (i + 4 + j + 3) s"
      define endPos where "endPos = i + 4 + j"
      from tb j have f2: "str_find s ''-->'' i = Some endPos" by (simp add: endPos_def)
      have D: "?D = body @ ''-->'' @ rest"
      proof -
        have "?D = take j ?D @ drop j ?D" by (simp only: append_take_drop_id)
        also have "drop j ?D = ''-->'' @ drop 3 (drop j ?D)"
          using prefix_split[OF conjunct2[OF hit2]] by simp
        also have "drop 3 (drop j ?D) = rest"
          by (simp add: rest_def add.commute add.left_commute)
        finally show ?thesis by (simp add: body_def)
      qed
      have s: "s = take i s @ ''<!--'' @ body @ ''-->'' @ rest"
      proof -
        have "s = take i s @ drop i s" by simp
        then show ?thesis using d D by metis
      qed
      have lt: "length (take i s) = i" using il by simp
      have mn: "min (length s) i = i" using il by simp
      have lb: "length body = j" using hit2 by (simp add: body_def)
      have n: "endPos - i + 3 = length (''<!--'' @ body @ ''-->'')"
        by (simp add: endPos_def lb)
      have ct: "str_substr s i (endPos - i + 3) = ''<!--'' @ body @ ''-->''"
        unfolding str_substr_def n by (subst d, subst D) simp
      have cc: "str_substr s (i + 4) (size_t_sub endPos (i + 4)) = body"
        by (simp add: str_substr_def size_t_sub_def endPos_def body_def)
      have nr: "\<not> sublist ''<!-->'' rest" "\<not> sublist ''<!--->'' rest"
        unfolding rest_def
        by (rule not_sublist_drop[OF "1.prems"(1)], rule not_sublist_drop[OF "1.prems"(2)])
      have ih: "formatSingleLineComments_loop rest 0 = comments_spec rest"
        by (rule "1.IH"[OF Some j body_def rest_def nr])
      have rep: "str_replace s i (endPos - i + 3) t = (take i s @ t) @ rest" for t
      proof -
        have "drop (i + (endPos - i + 3)) s = rest"
          by (simp add: rest_def endPos_def add.commute add.left_commute)
        then show ?thesis by (simp add: str_replace_def)
      qed
      have cs: "comments_spec s
                = take i s
                  @ (if CR \<notin> set body \<and> LF \<notin> set body
                     then comment_wrap (collapse_spaces (trim_spaces body))
                     else ''<!--'' @ body @ ''-->'')
                  @ comments_spec rest"
        by (subst comments_spec.simps) (simp only: Some j option.case Let_def body_def rest_def)
      show ?thesis
      proof (cases "CR \<notin> set body \<and> LF \<notin> set body")
        case True
        define nc where "nc = rewriteComment body"
        have single: "str_find (str_substr s i (endPos - i + 3)) [LF] 0 = None
                      \<and> str_find (str_substr s i (endPos - i + 3)) [CR] 0 = None"
          using True by (simp add: ct str_find_char_0)
        have "formatSingleLineComments_loop s 0
              = formatSingleLineComments_loop (str_replace s i (endPos - i + 3) nc) (i + length nc)"
          by (rule fsl_step_single[OF f1 f2 single]) (simp add: cc nc_def)
        also have "\<dots> = formatSingleLineComments_loop ((take i s @ nc) @ rest) (length (take i s @ nc) + 0)"
          by (simp only: rep) (simp add: mn)
        also have "\<dots> = (take i s @ nc) @ formatSingleLineComments_loop rest 0"
          by (rule formatSingleLineComments_loop_shift) simp
        finally have "formatSingleLineComments_loop s 0 = take i s @ nc @ comments_spec rest"
          by (simp add: ih)
        moreover have "comments_spec s = take i s @ nc @ comments_spec rest"
          using True by (simp add: cs nc_def rewriteComment_eq)
        ultimately show ?thesis by simp
      next
        case False
        have multi: "\<not> (str_find (str_substr s i (endPos - i + 3)) [LF] 0 = None
                      \<and> str_find (str_substr s i (endPos - i + 3)) [CR] 0 = None)"
          using False by (auto simp add: ct str_find_char_0)
        let ?c = "''<!--'' @ body @ ''-->''"
        have e3: "endPos + 3 = length (take i s @ ?c) + 0"
          by (simp add: mn lb endPos_def)
        have "formatSingleLineComments_loop s 0 = formatSingleLineComments_loop s (endPos + 3)"
          by (rule fsl_step_multi[OF f1 f2 multi])
        also have "\<dots> = formatSingleLineComments_loop ((take i s @ ?c) @ rest) (length (take i s @ ?c) + 0)"
          unfolding e3 using s by simp
        also have "\<dots> = (take i s @ ?c) @ formatSingleLineComments_loop rest 0"
          by (rule formatSingleLineComments_loop_shift) simp
        finally have "formatSingleLineComments_loop s 0 = take i s @ ?c @ comments_spec rest"
          by (simp add: ih)
        moreover have "comments_spec s = take i s @ ?c @ comments_spec rest"
          using False by (auto simp add: cs)
        ultimately show ?thesis by simp
      qed
    qed
  qed
qed

section \<open>The comment pass keeps the space in front of \<^verbatim>\<open>/>\<close>\<close>

lemma spaced_after_append:
  "spaced_after x (a @ b) \<longleftrightarrow>
     spaced_after x a \<and> spaced_after (last (x # a)) b
     \<and> (a \<noteq> [] \<and> last a = CHR ''/'' \<and> prefix ''>'' b \<longrightarrow> last (x # butlast a) = SPACE)"
proof (induction a arbitrary: x)
  case Nil
  then show ?case by simp
next
  case (Cons c a)
  show ?case
  proof (cases a)
    case Nil
    then show ?thesis by (cases b) auto
  next
    case (Cons d a')
    with Cons.IH[of c] show ?thesis by auto
  qed
qed

lemma spaced_after_take: "spaced_after x s \<Longrightarrow> spaced_after x (take n s)"
  using spaced_after_append[of x "take n s" "drop n s"] by simp

lemma spaced_after_drop: "spaced_after x s \<Longrightarrow> spaced_after (last (x # take n s)) (drop n s)"
  using spaced_after_append[of x "take n s" "drop n s"] by simp

lemma spaced_after_substr:
  "spaced_after SPACE s \<Longrightarrow> spaced_after SPACE (take n (drop m s))"
  by (meson spaced_after_SPACE spaced_after_drop spaced_after_take)

lemma collapse_from_hd:
  "prefix ''/>'' (c # collapse_from False cs) \<Longrightarrow> prefix ''/>'' (c # cs)"
  by (cases cs) (auto split: if_splits)

lemma collapse_from_spaced:
  "spaced_after p cs \<Longrightarrow> (l \<longrightarrow> p = SPACE) \<Longrightarrow> spaced_after p (collapse_from l cs)"
proof (induction cs arbitrary: p l)
  case Nil
  then show ?case by simp
next
  case (Cons c cs)
  from Cons.prems(1) have tl: "spaced_after c cs" by simp
  show ?case
  proof (cases "c = SPACE")
    case True
    with Cons.IH[of SPACE True] tl Cons.prems(2) show ?thesis by auto
  next
    case False
    have ih: "spaced_after c (collapse_from False cs)"
      by (rule Cons.IH[OF tl]) simp
    have "prefix ''/>'' (c # collapse_from False cs) \<Longrightarrow> p = SPACE"
      using collapse_from_hd[of c cs] Cons.prems(1) by auto
    with ih False show ?thesis by simp
  qed
qed

lemma trimComment_substr: "\<exists>n m. trimComment c = take n (drop m c)"
proof (cases "find_first_not_of c SPACE"; cases "find_last_not_of c SPACE")
  fix a b assume "find_first_not_of c SPACE = Some a" "find_last_not_of c SPACE = Some b"
  then have "trimComment c = take (b - a + 1) (drop a c)"
    by (simp add: trimComment_def str_substr_def)
  then show ?thesis by blast
next
  fix a assume "find_first_not_of c SPACE = Some a" "find_last_not_of c SPACE = None"
  then have "trimComment c = take (length c) (drop a c)"
    by (simp add: trimComment_def str_substr_from_def)
  then show ?thesis by blast
next
  fix b assume "find_first_not_of c SPACE = None" "find_last_not_of c SPACE = Some b"
  then have "trimComment c = take (b + 1) (drop 0 c)"
    by (simp add: trimComment_def str_substr_def)
  then show ?thesis by blast
next
  assume "find_first_not_of c SPACE = None" "find_last_not_of c SPACE = None"
  then have "trimComment c = take 0 (drop 0 c)"
    by (simp add: trimComment_def)
  then show ?thesis by blast
qed

lemma rewriteComment_spaced:
  assumes "spaced_after SPACE c"
  shows "spaced_after x (rewriteComment c)"
proof -
  obtain n m where t: "trimComment c = take n (drop m c)"
    using trimComment_substr by blast
  have "spaced_after SPACE (trimComment c)"
    unfolding t by (rule spaced_after_substr[OF assms])
  then have N: "spaced_after SPACE (collapse_from False (trimComment c))"
    by (rule collapse_from_spaced) simp
  let ?N = "collapse_from False (trimComment c)"
  have "spaced_after SPACE (?N @ '' -->'')"
    unfolding spaced_after_append using N by simp
  then show ?thesis
    by (simp add: rewriteComment_def collapse_loop_eq Let_def)
qed

lemma rewriteComment_ends:
  "rewriteComment c \<noteq> [] \<and> hd (rewriteComment c) = CHR ''<'' \<and> last (rewriteComment c) = CHR ''>''"
  by (simp add: rewriteComment_def Let_def)

lemma last_take_nth: "n < length s \<Longrightarrow> last (x # take (Suc n) s) = s ! n"
  by (simp add: take_Suc_conv_app_nth)

lemma comment_replaced_spaced:
  assumes sp: "spaced_after SPACE result"
    and e: "str_find result ''-->'' pos = Some endPos"
  shows "spaced_after SPACE
           (str_replace result pos (endPos - pos + 3)
              (rewriteComment (str_substr result (pos + 4) n)))"
proof -
  let ?nc = "rewriteComment (str_substr result (pos + 4) n)"
  let ?A = "take pos result"
  let ?B = "drop (endPos + 3) result"
  note f2 = str_find_Some[OF e]
  have r: "str_replace result pos (endPos - pos + 3) ?nc = ?A @ ?nc @ ?B"
    using f2 by (simp add: str_replace_def)
  note ends = rewriteComment_ends[of "str_substr result (pos + 4) n"]
  obtain h t where nc: "?nc = h # t" and h: "h = CHR ''<''"
    using ends by (cases ?nc) auto
  have cc: "spaced_after SPACE (str_substr result (pos + 4) n)"
    unfolding str_substr_def by (rule spaced_after_substr[OF sp])
  have 1: "spaced_after SPACE ?A" by (rule spaced_after_take[OF sp])
  have 2: "spaced_after (last (SPACE # ?A)) ?nc" by (rule rewriteComment_spaced[OF cc])
  have gt: "result ! (endPos + 2) = CHR ''>''"
  proof -
    from f2 have "prefix ''-->'' (drop endPos result)" by simp
    then have "drop endPos result = ''-->'' @ drop 3 (drop endPos result)"
      using prefix_split by fastforce
    then have "drop endPos result ! 2 = CHR ''>''"
      by (metis append_Cons nth_Cons_0 nth_Cons_Suc numeral_2_eq_2)
    then show ?thesis using f2 by simp
  qed
  have "last (SPACE # take (Suc (endPos + 2)) result) = result ! (endPos + 2)"
    by (rule last_take_nth) (use f2 in simp)
  then have lastB: "last (SPACE # take (endPos + 3) result) = CHR ''>''"
    using gt by (simp add: eval_nat_numeral)
  have 3: "spaced_after (CHR ''>'') ?B"
    using spaced_after_drop[OF sp, of "endPos + 3"] lastB by simp
  have l: "last (last (SPACE # ?A) # ?nc) = CHR ''>''"
    using ends by simp
  have ncB: "spaced_after (last (SPACE # ?A)) (?nc @ ?B)"
    unfolding spaced_after_append using 2 3 l ends by simp
  have "spaced_after SPACE (?A @ (?nc @ ?B))"
    unfolding spaced_after_append[of SPACE ?A] using 1 ncB nc h by simp
  then show ?thesis by (simp only: r)
qed

lemma formatSingleLineComments_loop_spaced:
  "spaced_after SPACE s \<Longrightarrow> spaced_after SPACE (formatSingleLineComments_loop s pos)"
proof (induction s pos rule: formatSingleLineComments_loop.induct)
  case (1 result pos0)
  show ?case
  proof (cases "str_find result ''<!--'' pos0")
    case None
    then show ?thesis using "1.prems" by (simp add: fsl_step_done)
  next
    case (Some pos)
    show ?thesis
    proof (cases "str_find result ''-->'' pos")
      case None
      from "1.IH"(1)[OF Some None "1.prems"] show ?thesis
        by (simp add: fsl_step_unterminated[OF Some None])
    next
      case e: (Some endPos)
      define ct where "ct = str_substr result pos (endPos - pos + 3)"
      define cc where "cc = str_substr result (pos + 4) (size_t_sub endPos (pos + 4))"
      define nc where "nc = rewriteComment cc"
      show ?thesis
      proof (cases "str_find ct [LF] 0 = None \<and> str_find ct [CR] 0 = None")
        case True
        have sp: "spaced_after SPACE (str_replace result pos (endPos - pos + 3) nc)"
          unfolding nc_def cc_def by (rule comment_replaced_spaced[OF "1.prems" e])
        have "spaced_after SPACE
                (formatSingleLineComments_loop (str_replace result pos (endPos - pos + 3) nc)
                   (pos + length nc))"
          by (rule "1.IH"(2)[OF Some e ct_def True cc_def nc_def sp])
        moreover have "formatSingleLineComments_loop result pos0
              = formatSingleLineComments_loop (str_replace result pos (endPos - pos + 3) nc)
                  (pos + length nc)"
          by (rule fsl_step_single[OF Some e]) (use True in \<open>simp_all only: ct_def cc_def nc_def\<close>)
        ultimately show ?thesis by simp
      next
        case False
        have "spaced_after SPACE (formatSingleLineComments_loop result (endPos + 3))"
          by (rule "1.IH"(3)[OF Some e ct_def False "1.prems"])
        moreover have "formatSingleLineComments_loop result pos0
              = formatSingleLineComments_loop result (endPos + 3)"
          by (rule fsl_step_multi[OF Some e]) (fold ct_def, rule False)
        ultimately show ?thesis by simp
      qed
    qed
  qed
qed

lemma postProcess_part000_spaced:
  "every_slashGt_after_space
     (normalizeLineEndings (formatSingleLineComments (selfClosing_loop (patternsReplaced f) 0)))"
proof -
  let ?y = "replace_spec ''><!--'' ''> <!--'' (replace_spec (''>'' @ [TAB] @ ''<!--'') ''> <!--'' f)"
  have "no_quote_before SPACE (replace_spec (DQUOTE # ''/>'') (DQUOTE # '' />'') ?y)"
    by (rule quote_replaced) simp
  then have "no_quote_before SPACE (patternsReplaced f)"
    unfolding patternsReplaced_def by (rule lt_slash_gt_replaced)
  then have "spaced_after SPACE (sc_pass (Some SPACE) (patternsReplaced f))"
    by (rule sc_spaced)
  then have "spaced_after SPACE (selfClosing_loop (patternsReplaced f) 0)"
    by (simp add: selfClosing_loop_0 sc_pass_Some_SPACE)
  then have "spaced_after SPACE (formatSingleLineComments (selfClosing_loop (patternsReplaced f) 0))"
    unfolding formatSingleLineComments_def by (rule formatSingleLineComments_loop_spaced)
  then have "spaced_after SPACE
      (crlf_spec (formatSingleLineComments (selfClosing_loop (patternsReplaced f) 0)))"
    by (rule crlf_spaced)
  then show ?thesis
    by (simp add: normalizeLineEndings_crlf_spec spaced_after_every)
qed

section \<open>No second space in front of \<^verbatim>\<open>/>\<close>\<close>

text \<open>
  The post-processing never makes a \<^verbatim>\<open>/>\<close> with two spaces in front of it: every space it
  inserts stands behind a character that is no space and in front of one that is no
  space, the comment it writes has no two spaces in a row, begins with \<^verbatim>\<open><\<close> and ends with
  \<^verbatim>\<open>>\<close>, and the line endings it inserts are no spaces.
\<close>

lemma two_spaces_slashGt_splits:
  "''  />'' = xs1 @ xs2 \<longleftrightarrow>
     (xs1 = [] \<and> xs2 = ''  />'') \<or> (xs1 = '' '' \<and> xs2 = '' />'')
     \<or> (xs1 = ''  '' \<and> xs2 = ''/>'') \<or> (xs1 = ''  /'' \<and> xs2 = ''>'')
     \<or> (xs1 = ''  />'' \<and> xs2 = [])"
  by (auto simp: Cons_eq_append_conv)

lemma suffix_space: "suffix (xs @ '' '') A \<Longrightarrow> suffix '' '' A"
  by (metis suffix_appendD)

lemma double_space_insert:
  assumes "\<not> sublist ''  />'' (A @ u @ B)" "\<not> suffix '' '' A" "\<not> prefix '' '' B"
  shows "\<not> sublist ''  />'' (A @ SPACE # B)"
proof
  assume s: "sublist ''  />'' (A @ SPACE # B)"
  from sublist_part[OF assms(1)] have nA: "\<not> sublist ''  />'' A" and nB: "\<not> sublist ''  />'' B"
    by simp_all
  from assms(3) have nb: "\<not> prefix '' />'' B" "\<not> prefix ''  />'' (SPACE # B)"
    by (auto simp: prefix_def)
  from assms(2) have na: "\<not> suffix ''  '' A"
    using suffix_space[of "'' ''" A] by auto
  from s consider "sublist ''  />'' A" | "sublist ''  />'' (SPACE # B)"
    | xs1 xs2 where "''  />'' = xs1 @ xs2" "suffix xs1 A" "prefix xs2 (SPACE # B)"
    unfolding sublist_append by blast
  then show False
  proof cases
    case 1
    with nA show False by simp
  next
    case 2
    then have "prefix ''  />'' (SPACE # B) \<or> sublist ''  />'' B"
      by (simp add: sublist_Cons_right)
    with nb nB show False by simp
  next
    case 3
    from 3(1) consider "xs1 = []" "xs2 = ''  />''" | "xs1 = '' ''" | "xs1 = ''  ''"
      | "xs2 = ''>''" | "xs1 = ''  />''"
      unfolding two_spaces_slashGt_splits by blast
    then show False
    proof cases
      case 1
      with 3(3) nb show False by simp
    next
      case 2
      with 3(2) assms(2) show False by simp
    next
      case 3
      with \<open>suffix xs1 A\<close> na show False by simp
    next
      case 4
      with 3(3) show False by simp
    next
      case 5
      with 3(2) nA show False by (auto simp: suffix_imp_sublist)
    qed
  qed
qed

lemma suffix_space_last: "suffix '' '' A \<longleftrightarrow> A \<noteq> [] \<and> last A = SPACE"
  by (cases A rule: rev_cases) (auto simp: suffix_def)

lemma prefix_space_hd: "prefix '' '' B \<longleftrightarrow> B \<noteq> [] \<and> hd B = SPACE"
  by (cases B) auto

lemma replace_spec_no_double:
  assumes a: "a \<noteq> []" "last a \<noteq> SPACE" and b: "b \<noteq> []" "hd b \<noteq> SPACE"
  shows "F = a @ u @ b \<Longrightarrow> T = a @ SPACE # b \<Longrightarrow> \<not> sublist ''  />'' (pre @ s) \<Longrightarrow>
         \<not> sublist ''  />'' (pre @ replace_spec F T s)"
proof (induction F T s arbitrary: pre rule: replace_spec.induct)
  case (1 "from" to)
  then show ?case by simp
next
  case (2 "from" to c cs)
  note F' = "2.prems"(1) and T' = "2.prems"(2)
  show ?case
  proof (cases "from \<noteq> [] \<and> prefix from (c # cs)")
    case True
    then obtain rest where rest: "c # cs = from @ rest" by (auto simp: prefix_def)
    then have dr: "drop (length from) (c # cs) = rest" by (metis append_eq_conv_conj)
    from "2.prems"(3) have "\<not> sublist ''  />'' ((pre @ a) @ u @ (b @ rest))"
      by (simp add: rest F')
    moreover have "\<not> suffix '' '' (pre @ a)" using a by (simp add: suffix_space_last)
    moreover have "\<not> prefix '' '' (b @ rest)" using b by (simp add: prefix_space_hd)
    ultimately have "\<not> sublist ''  />'' ((pre @ a) @ SPACE # (b @ rest))"
      by (rule double_space_insert)
    then have nn: "\<not> sublist ''  />'' ((pre @ to) @ rest)"
      by (simp add: T')
    have "\<not> sublist ''  />'' ((pre @ to) @ replace_spec from to (drop (length from) (c # cs)))"
      by (rule "2.IH"(1)[OF True F' T']) (use nn in \<open>simp add: dr\<close>)
    with True show ?thesis by simp
  next
    case False
    from "2.prems"(3) have "\<not> sublist ''  />'' ((pre @ [c]) @ cs)" by simp
    from "2.IH"(2)[OF False F' T' this] False show ?thesis by auto
  qed
qed

lemma sc_pass_no_double:
  "\<not> sublist ''  />'' (pre @ s) \<Longrightarrow> (needs_space prev \<Longrightarrow> \<not> suffix '' '' pre) \<Longrightarrow>
   \<not> sublist ''  />'' (pre @ sc_pass prev s)"
proof (induction prev s arbitrary: pre rule: sc_pass.induct)
  case (1 prev)
  then show ?case by simp
next
  case (2 prev c)
  then show ?case by simp
next
  case (3 prev c d cs)
  show ?case
  proof (cases "c = CHR ''/'' \<and> d = CHR ''>''")
    case True
    have gt: "\<not> suffix '' '' (pre' @ ''/>'')" for pre' :: string
      by (simp add: suffix_space_last)
    show ?thesis
    proof (cases "needs_space prev")
      case ns: True
      from "3.prems"(1) True have "\<not> sublist ''  />'' (pre @ [] @ (''/>'' @ cs))" by simp
      moreover from "3.prems"(2)[OF ns] have "\<not> suffix '' '' pre" .
      moreover have "\<not> prefix '' '' (''/>'' @ cs)" by simp
      ultimately have "\<not> sublist ''  />'' (pre @ SPACE # (''/>'' @ cs))"
        by (rule double_space_insert)
      then have "\<not> sublist ''  />'' ((pre @ '' />'') @ cs)" by simp
      from "3.IH"(1)[OF True this] gt[of "pre @ '' ''"] True ns show ?thesis by simp
    next
      case ns: False
      from "3.prems"(1) True have "\<not> sublist ''  />'' ((pre @ ''/>'') @ cs)" by simp
      from "3.IH"(1)[OF True this] gt[of pre] True ns show ?thesis by simp
    qed
  next
    case False
    from "3.prems"(1) have "\<not> sublist ''  />'' ((pre @ [c]) @ d # cs)" by simp
    moreover have "needs_space (Some c) \<Longrightarrow> \<not> suffix '' '' (pre @ [c])"
      by (auto simp: needs_space_def suffix_space_last)
    ultimately have "\<not> sublist ''  />'' ((pre @ [c]) @ sc_pass (Some c) (d # cs))"
      by (rule "3.IH"(2)[OF False])
    with False show ?thesis by auto
  qed
qed

lemma patternsReplaced_no_double:
  assumes "\<not> sublist ''  />'' f"
  shows "\<not> sublist ''  />'' (selfClosing_loop (patternsReplaced f) 0)"
proof -
  let ?r1 = "replace_spec (''>'' @ [TAB] @ ''<!--'') ''> <!--'' f"
  let ?r2 = "replace_spec ''><!--'' ''> <!--'' ?r1"
  let ?r3 = "replace_spec (DQUOTE # ''/>'') (DQUOTE # '' />'') ?r2"
  let ?r4 = "replace_spec ''</>'' ''< />'' ?r3"
  have 1: "\<not> sublist ''  />'' ([] @ ?r1)"
    by (rule replace_spec_no_double[where a = "''>''" and u = "[TAB]" and b = "''<!--''"])
       (use assms in simp_all)
  have 2: "\<not> sublist ''  />'' ([] @ ?r2)"
    by (rule replace_spec_no_double[where a = "''>''" and u = "[]" and b = "''<!--''"])
       (use 1 in simp_all)
  have 3: "\<not> sublist ''  />'' ([] @ ?r3)"
    by (rule replace_spec_no_double[where a = "[DQUOTE]" and u = "[]" and b = "''/>''"])
       (use 2 in simp_all)
  have 4: "\<not> sublist ''  />'' ([] @ ?r4)"
    by (rule replace_spec_no_double[where a = "''<''" and u = "[]" and b = "''/>''"])
       (use 3 in simp_all)
  have "\<not> sublist ''  />'' ([] @ sc_pass None ?r4)"
    by (rule sc_pass_no_double) (use 4 in \<open>simp_all add: needs_space_def\<close>)
  then show ?thesis
    by (simp add: selfClosing_loop_0 patternsReplaced_def)
qed

lemma crlf_spec_no_new:
  assumes P: "P \<noteq> []" "CR \<notin> set P" "LF \<notin> set P"
  shows "\<not> sublist P (pre @ s) \<Longrightarrow> \<not> sublist P (pre @ crlf_spec s)"
proof (induction s arbitrary: pre rule: crlf_spec.induct)
  case 1
  then show ?case by simp
next
  case (2 c)
  show ?case
  proof (cases "c = CR \<or> c = LF")
    case True
    with "2.prems" have "\<not> sublist P pre"
      using sublist_part[of P pre "[c]" "[]"] by simp
    then have "\<not> sublist P (pre @ CR # [LF])"
      using P by (simp add: sublist_avoiding[OF P(2)] sublist_avoiding[OF P(3), of "[]" "[]", simplified])
    with True show ?thesis by auto
  next
    case False
    with "2.prems" show ?thesis by simp
  qed
next
  case (3 c d cs)
  have sep: "sublist P (A @ x # B) \<longleftrightarrow> sublist P A \<or> sublist P B" if "x = CR \<or> x = LF" for A B x
    using that sublist_avoiding[OF P(2), of A B] sublist_avoiding[OF P(3), of A B] by auto
  have sep0: "sublist P (x # B) \<longleftrightarrow> sublist P B" if "x = CR \<or> x = LF" for B x
    using sep[OF that, of "[]" B] P(1) by simp
  show ?case
  proof (cases "c = CR \<and> d = LF")
    case True
    from "3.prems" True have "\<not> sublist P pre" "\<not> sublist P cs"
      by (simp_all add: sep sep0)
    from "3.IH"(1)[OF True, of "[]"] this(2) have "\<not> sublist P (crlf_spec cs)" by simp
    with \<open>\<not> sublist P pre\<close> True show ?thesis by (simp add: sep sep0)
  next
    case nb: False
    show ?thesis
    proof (cases "c = CR \<or> c = LF")
      case True
      from "3.prems" True have "\<not> sublist P pre" "\<not> sublist P (d # cs)"
        by (simp_all add: sep)
      from "3.IH"(2)[OF nb True, of "[]"] this(2) have "\<not> sublist P (crlf_spec (d # cs))" by simp
      with \<open>\<not> sublist P pre\<close> nb True show ?thesis by (auto simp: sep sep0)
    next
      case False
      from "3.prems" have "\<not> sublist P ((pre @ [c]) @ d # cs)" by simp
      from "3.IH"(3)[OF nb False this] nb False show ?thesis by simp
    qed
  qed
qed

lemma postProcess_cpp_no_double:
  assumes "\<not> sublist ''  />'' f"
  shows "\<not> sublist ''  />'' (normalizeLineEndings (selfClosing_loop (patternsReplaced f) 0))"
proof -
  from patternsReplaced_no_double[OF assms]
  have "\<not> sublist ''  />'' ([] @ selfClosing_loop (patternsReplaced f) 0)" by simp
  then have "\<not> sublist ''  />'' ([] @ crlf_spec (selfClosing_loop (patternsReplaced f) 0))"
    by (rule crlf_spec_no_new[rotated 3]) simp_all
  then show ?thesis by (simp add: normalizeLineEndings_crlf_spec)
qed

lemma sublist_append_cases:
  assumes "sublist P (X @ Y)"
  shows "sublist P X \<or> sublist P Y
         \<or> (\<exists>xs1 xs2. P = xs1 @ xs2 \<and> suffix xs1 X \<and> prefix xs2 Y \<and> xs1 \<noteq> [] \<and> xs2 \<noteq> [])"
proof -
  from assms consider "sublist P X" | "sublist P Y"
    | xs1 xs2 where "P = xs1 @ xs2" "suffix xs1 X" "prefix xs2 Y"
    unfolding sublist_append by blast
  then show ?thesis
  proof cases
    case 3
    show ?thesis
    proof (cases "xs1 = [] \<or> xs2 = []")
      case True
      with 3 show ?thesis by (auto simp: prefix_imp_sublist suffix_imp_sublist)
    next
      case False
      with 3 show ?thesis by blast
    qed
  qed simp_all
qed

lemma sublist_pair_append:
  "sublist [a, b] (X @ Y) \<longleftrightarrow>
     sublist [a, b] X \<or> sublist [a, b] Y \<or> (X \<noteq> [] \<and> last X = a \<and> Y \<noteq> [] \<and> hd Y = b)"
proof
  assume "sublist [a, b] (X @ Y)"
  from sublist_append_cases[OF this] consider "sublist [a, b] X" | "sublist [a, b] Y"
    | xs1 xs2 where "[a, b] = xs1 @ xs2" "suffix xs1 X" "prefix xs2 Y" "xs1 \<noteq> []" "xs2 \<noteq> []"
    by blast
  then show "sublist [a, b] X \<or> sublist [a, b] Y \<or> (X \<noteq> [] \<and> last X = a \<and> Y \<noteq> [] \<and> hd Y = b)"
  proof cases
    case 3
    from 3(1,4,5) have x: "xs1 = [a]" "xs2 = [b]"
      by (auto simp: Cons_eq_append_conv)
    from 3(2) x obtain X' where "X = X' @ [a]" by (auto simp: suffix_def)
    moreover from 3(3) x obtain Y' where "Y = b # Y'" by (auto simp: prefix_def)
    ultimately show ?thesis by simp
  qed simp_all
next
  assume "sublist [a, b] X \<or> sublist [a, b] Y \<or> (X \<noteq> [] \<and> last X = a \<and> Y \<noteq> [] \<and> hd Y = b)"
  then consider "sublist [a, b] X" | "sublist [a, b] Y"
    | "X \<noteq> []" "last X = a" "Y \<noteq> []" "hd Y = b" by blast
  then show "sublist [a, b] (X @ Y)"
  proof cases
    case 3
    then obtain X' Y' where "X = X' @ [a]" "Y = b # Y'"
      by (metis append_butlast_last_id list.collapse)
    then have "X @ Y = X' @ [a, b] @ Y'" by simp
    then show ?thesis unfolding sublist_def by blast
  qed (simp_all add: sublist_append)
qed

lemma sublist_pair_Cons:
  "sublist [a, b] (x # Y) \<longleftrightarrow> (x = a \<and> Y \<noteq> [] \<and> hd Y = b) \<or> sublist [a, b] Y"
  using sublist_pair_append[of a b "[x]" Y] by (auto simp: sublist_Cons_right)

lemma collapse_spaces_no_double: "\<not> sublist ''  '' (collapse_spaces x)"
proof (induction x rule: collapse_spaces.induct)
  case 1
  then show ?case by simp
next
  case (2 c)
  then show ?case by (simp add: sublist_Cons_right)
next
  case (3 c d cs)
  show ?case
  proof (cases "c = SPACE \<and> d = SPACE")
    case True
    with "3.IH"(1) show ?thesis by simp
  next
    case False
    have "hd (collapse_spaces (d # cs)) = d"
      using collapse_spaces_hd[of d cs] by (metis list.sel(1))
    with "3.IH"(2)[OF False] False show ?thesis
      by (auto simp: sublist_pair_Cons)
  qed
qed

lemma collapse_spaces_last: "x \<noteq> [] \<Longrightarrow> collapse_spaces x \<noteq> [] \<and> last (collapse_spaces x) = last x"
proof (induction x rule: collapse_spaces.induct)
  case 1
  then show ?case by simp
next
  case (2 c)
  then show ?case by simp
next
  case (3 c d cs)
  then show ?case by auto
qed

lemma trim_spaces_ends:
  assumes ne: "trim_spaces c \<noteq> []"
  shows "hd (trim_spaces c) \<noteq> SPACE \<and> last (trim_spaces c) \<noteq> SPACE"
proof -
  define d where "d = dropWhile (\<lambda>c. c = SPACE) c"
  define e where "e = dropWhile (\<lambda>c. c = SPACE) (rev d)"
  have t: "trim_spaces c = rev e" by (simp add: trim_spaces_def d_def e_def)
  with ne have e: "e \<noteq> []" by simp
  have "hd e \<noteq> SPACE"
    using hd_dropWhile[of "\<lambda>c. c = SPACE" "rev d"] e by (simp add: e_def)
  then have l: "last (trim_spaces c) \<noteq> SPACE" using e by (simp add: t last_rev)
  from e have dn: "d \<noteq> []" by (auto simp: e_def)
  have hd: "hd d \<noteq> SPACE"
    using hd_dropWhile[of "\<lambda>c. c = SPACE" c] dn by (simp add: d_def)
  have "suffix e (rev d)" unfolding e_def by (rule suffix_dropWhile)
  then obtain zs where "rev d = zs @ e" by (auto simp: suffix_def)
  then have "rev (rev d) = rev (zs @ e)" by simp
  then have "d = rev e @ rev zs" by simp
  moreover from e obtain a r where "rev e = a # r" by (cases "rev e") auto
  ultimately have "hd (rev e) = hd d" by simp
  with hd l t show ?thesis by simp
qed

lemma rewriteComment_no_double: "\<not> sublist ''  '' (rewriteComment c)"
proof -
  define y where "y = collapse_spaces (trim_spaces c)"
  have n: "\<not> sublist ''  '' y" unfolding y_def by (rule collapse_spaces_no_double)
  show ?thesis
  proof (cases "trim_spaces c = []")
    case True
    then show ?thesis
      by (simp add: rewriteComment_eq comment_wrap_def sublist_pair_Cons sublist_Cons_right)
  next
    case False
    from trim_spaces_ends[OF False] collapse_spaces_last[OF False]
    have l: "y \<noteq> []" "last y \<noteq> SPACE" by (simp_all add: y_def)
    obtain a t where tc: "trim_spaces c = a # t" using False by (cases "trim_spaces c") auto
    with trim_spaces_ends[OF False] have "a \<noteq> SPACE" by simp
    moreover have "y = a # tl y" unfolding y_def tc by (rule collapse_spaces_hd)
    ultimately have h: "hd y \<noteq> SPACE" by (metis list.sel(1))
    have "\<not> sublist ''  '' (''<!-- '' @ y @ '' -->'')"
      using n l h by (simp add: sublist_pair_append sublist_pair_Cons sublist_Cons_right
          prefix_space_hd)
    with l show ?thesis
      by (simp add: rewriteComment_eq comment_wrap_def y_def)
  qed
qed

lemma double_space_replace:
  assumes A: "\<not> sublist ''  />'' A" and B: "\<not> sublist ''  />'' B"
    and v: "\<not> sublist ''  '' v" "v \<noteq> []" "hd v = CHR ''<''" "last v = CHR ''>''"
  shows "\<not> sublist ''  />'' (A @ v @ B)"
proof
  assume s: "sublist ''  />'' (A @ v @ B)"
  have nv: "\<not> sublist ''  />'' v"
  proof
    assume "sublist ''  />'' v"
    moreover have "sublist ''  '' ''  />''" by (simp add: prefix_imp_sublist)
    ultimately have "sublist ''  '' v" by (rule sublist_order.order.trans[rotated])
    with v(1) show False by simp
  qed
  obtain h t where vh: "v = h # t" "h = CHR ''<''" using v(2,3) by (cases v) auto
  have nvB: "\<not> sublist ''  />'' (v @ B)"
  proof
    assume "sublist ''  />'' (v @ B)"
    from sublist_append_cases[OF this] consider "sublist ''  />'' v" | "sublist ''  />'' B"
      | xs1 xs2 where "''  />'' = xs1 @ xs2" "suffix xs1 v" "prefix xs2 B" "xs1 \<noteq> []" "xs2 \<noteq> []"
      by blast
    then show False
    proof cases
      case 1
      with nv show False by simp
    next
      case 2
      with B show False by simp
    next
      case 3
      from 3(2,4) v(4) have "last xs1 = CHR ''>''"
        by (metis last_appendR suffix_def)
      with 3(1,4,5) show False
        unfolding two_spaces_slashGt_splits by auto
    qed
  qed
  from sublist_append_cases[OF s] consider "sublist ''  />'' A" | "sublist ''  />'' (v @ B)"
    | xs1 xs2 where "''  />'' = xs1 @ xs2" "suffix xs1 A" "prefix xs2 (v @ B)" "xs1 \<noteq> []" "xs2 \<noteq> []"
    by blast
  then show False
  proof cases
    case 1
    with A show False by simp
  next
    case 2
    with nvB show False by simp
  next
    case 3
    from 3(3,5) vh have "hd xs2 = CHR ''<''"
      by (cases xs2) auto
    with 3(1,4,5) show False
      unfolding two_spaces_slashGt_splits by auto
  qed
qed

lemma comment_replaced_no_double:
  assumes n: "\<not> sublist ''  />'' result"
    and e: "str_find result ''-->'' pos = Some endPos"
  shows "\<not> sublist ''  />'' (str_replace result pos (endPos - pos + 3) (rewriteComment c))"
proof -
  let ?A = "take pos result"
  let ?B = "drop (endPos + 3) result"
  note f2 = str_find_Some[OF e]
  have r: "str_replace result pos (endPos - pos + 3) (rewriteComment c) = ?A @ rewriteComment c @ ?B"
    using f2 by (simp add: str_replace_def)
  have "sublist ?A result" by (simp add: prefix_imp_sublist take_is_prefix)
  with n have A: "\<not> sublist ''  />'' ?A" using sublist_order.order.trans by blast
  have "sublist ?B result" by (simp add: suffix_imp_sublist suffix_drop)
  with n have B: "\<not> sublist ''  />'' ?B" using sublist_order.order.trans by blast
  show ?thesis
    unfolding r
    by (rule double_space_replace[OF A B rewriteComment_no_double])
       (use rewriteComment_ends[of c] in simp_all)
qed

lemma formatSingleLineComments_loop_no_double:
  "\<not> sublist ''  />'' s \<Longrightarrow> \<not> sublist ''  />'' (formatSingleLineComments_loop s pos)"
proof (induction s pos rule: formatSingleLineComments_loop.induct)
  case (1 result pos0)
  show ?case
  proof (cases "str_find result ''<!--'' pos0")
    case None
    then show ?thesis using "1.prems" by (simp add: fsl_step_done)
  next
    case (Some pos)
    show ?thesis
    proof (cases "str_find result ''-->'' pos")
      case None
      from "1.IH"(1)[OF Some None "1.prems"] show ?thesis
        by (simp add: fsl_step_unterminated[OF Some None])
    next
      case e: (Some endPos)
      define ct where "ct = str_substr result pos (endPos - pos + 3)"
      define cc where "cc = str_substr result (pos + 4) (size_t_sub endPos (pos + 4))"
      define nc where "nc = rewriteComment cc"
      show ?thesis
      proof (cases "str_find ct [LF] 0 = None \<and> str_find ct [CR] 0 = None")
        case True
        have sp: "\<not> sublist ''  />'' (str_replace result pos (endPos - pos + 3) nc)"
          unfolding nc_def by (rule comment_replaced_no_double[OF "1.prems" e])
        have "\<not> sublist ''  />''
                (formatSingleLineComments_loop (str_replace result pos (endPos - pos + 3) nc)
                   (pos + length nc))"
          by (rule "1.IH"(2)[OF Some e ct_def True cc_def nc_def sp])
        moreover have "formatSingleLineComments_loop result pos0
              = formatSingleLineComments_loop (str_replace result pos (endPos - pos + 3) nc)
                  (pos + length nc)"
          by (rule fsl_step_single[OF Some e]) (use True in \<open>simp_all only: ct_def cc_def nc_def\<close>)
        ultimately show ?thesis by simp
      next
        case False
        have "\<not> sublist ''  />'' (formatSingleLineComments_loop result (endPos + 3))"
          by (rule "1.IH"(3)[OF Some e ct_def False "1.prems"])
        moreover have "formatSingleLineComments_loop result pos0
              = formatSingleLineComments_loop result (endPos + 3)"
          by (rule fsl_step_multi[OF Some e]) (fold ct_def, rule False)
        ultimately show ?thesis by simp
      qed
    qed
  qed
qed

lemma postProcess_part000_no_double:
  assumes "\<not> sublist ''  />'' f"
  shows "\<not> sublist ''  />''
           (normalizeLineEndings (formatSingleLineComments (selfClosing_loop (patternsReplaced f) 0)))"
proof -
  from patternsReplaced_no_double[OF assms]
  have "\<not> sublist ''  />'' (formatSingleLineComments (selfClosing_loop (patternsReplaced f) 0))"
    unfolding formatSingleLineComments_def by (rule formatSingleLineComments_loop_no_double)
  then have "\<not> sublist ''  />''
      ([] @ formatSingleLineComments (selfClosing_loop (patternsReplaced f) 0))" by simp
  then have "\<not> sublist ''  />''
      ([] @ crlf_spec (formatSingleLineComments (selfClosing_loop (patternsReplaced f) 0)))"
    by (rule crlf_spec_no_new[rotated 3]) simp_all
  then show ?thesis by (simp add: normalizeLineEndings_crlf_spec)
qed

lemma one_space_from_no_double:
  assumes sp: "every_slashGt_after_space s" and nd: "\<not> sublist ''  />'' s"
  shows "every_slashGt_after_one_space s"
  unfolding every_slashGt_after_one_space_def
proof (intro ballI impI conjI)
  fix i assume i: "i \<in> {1..<length s}" and p: "prefix ''/>'' (drop i s)"
  from sp i p show 1: "s ! (i - 1) = SPACE"
    by (simp add: every_slashGt_after_space_def)
  assume 2: "2 \<le> i"
  show "s ! (i - 2) \<noteq> SPACE"
  proof
    assume 3: "s ! (i - 2) = SPACE"
    from p obtain rest where r: "drop i s = ''/>'' @ rest" by (auto simp: prefix_def)
    from i 2 have "drop (i - 2) s = s ! (i - 2) # drop (Suc (i - 2)) s"
      by (simp add: Cons_nth_drop_Suc)
    also from i 2 have "drop (Suc (i - 2)) s = s ! (Suc (i - 2)) # drop (Suc (Suc (i - 2))) s"
      by (simp add: Cons_nth_drop_Suc)
    finally have "drop (i - 2) s = s ! (i - 2) # s ! (i - 1) # drop i s"
      using 2 by (simp add: numeral_2_eq_2 Suc_diff_Suc)
    with 1 3 r have "drop (i - 2) s = ''  />'' @ rest" by simp
    then have "s = take (i - 2) s @ ''  />'' @ rest"
      by (metis append_take_drop_id)
    then have "sublist ''  />'' s" unfolding sublist_def by blast
    with nd show False by simp
  qed
qed

section \<open>The statements on the post-processing\<close>

text \<open>
  C2, as amended. Whatever the formatter returns, \<^verbatim>\<open>indentXML\<close> returns a string in which
  every \<^verbatim>\<open>/>\<close> that is not at the very start of the string has a space directly in front
  of it, in both revisions. And the post-processing puts no second space there: if in
  the text the formatter returned no \<^verbatim>\<open>/>\<close> has two spaces directly in front of it, then
  in the returned string every \<^verbatim>\<open>/>\<close> that is not at the very start has exactly one
  space in front of it.
\<close>

theorem slashGt_preceded_by_space:
  "(\<exists>r. indentXML_cpp prettyPrint this = Some r
        \<and> every_slashGt_after_space r
        \<and> (\<not> sublist ''  />'' (prettyPrint (formatterParams this) (preProcess (xmlContent this)))
             \<longrightarrow> every_slashGt_after_one_space r))
   \<and> (\<exists>r. indentXML_part000 prettyPrint this = Some r
        \<and> every_slashGt_after_space r
        \<and> (\<not> sublist ''  />'' (prettyPrint (formatterParams this) (preProcess (xmlContent this)))
             \<longrightarrow> every_slashGt_after_one_space r))"
proof (intro conjI)
  let ?f = "prettyPrint (formatterParams this) (preProcess (xmlContent this))"
  let ?r = "normalizeLineEndings (selfClosing_loop (patternsReplaced ?f) 0)"
  have "indentXML_cpp prettyPrint this = Some ?r"
    by (simp add: indentXML_cpp_def postProcess_cpp_eq)
  moreover have "every_slashGt_after_space ?r"
    by (rule postProcess_cpp_spaced)
  moreover have "every_slashGt_after_one_space ?r" if "\<not> sublist ''  />'' ?f"
    by (rule one_space_from_no_double[OF postProcess_cpp_spaced postProcess_cpp_no_double[OF that]])
  ultimately show "\<exists>r. indentXML_cpp prettyPrint this = Some r
        \<and> every_slashGt_after_space r
        \<and> (\<not> sublist ''  />'' ?f \<longrightarrow> every_slashGt_after_one_space r)"
    by blast
  let ?q = "normalizeLineEndings
              (formatSingleLineComments (selfClosing_loop (patternsReplaced ?f) 0))"
  have "indentXML_part000 prettyPrint this = Some ?q"
    by (simp add: indentXML_part000_def postProcess_part000_eq)
  moreover have "every_slashGt_after_space ?q"
    by (rule postProcess_part000_spaced)
  moreover have "every_slashGt_after_one_space ?q" if "\<not> sublist ''  />'' ?f"
    by (rule one_space_from_no_double[OF postProcess_part000_spaced
          postProcess_part000_no_double[OF that]])
  ultimately show "\<exists>r. indentXML_part000 prettyPrint this = Some r
        \<and> every_slashGt_after_space r
        \<and> (\<not> sublist ''  />'' ?f \<longrightarrow> every_slashGt_after_one_space r)"
    by blast
qed

theorem slashGt_preceded_by_space_witness:
  "indentXML_cpp prettyPrint_oneLine (XmlIndenter_default ''<a/><b x=\"1\"/><c />'')
     = Some ''<a /><b x=\"1\" /><c />''
   \<and> every_slashGt_after_space ''<a /><b x=\"1\" /><c />''
   \<and> every_slashGt_after_one_space ''<a /><b x=\"1\" /><c />''"
proof -
  have v: "indentXML_cpp prettyPrint_oneLine (XmlIndenter_default ''<a/><b x=\"1\"/><c />'')
     = Some ''<a /><b x=\"1\" /><c />''"
    by code_simp
  have "search ''  />'' (preProcess ''<a/><b x=\"1\"/><c />'') = None"
    by code_simp
  then have h: "\<not> sublist ''  />''
      (prettyPrint_oneLine (formatterParams (XmlIndenter_default ''<a/><b x=\"1\"/><c />''))
         (preProcess (xmlContent (XmlIndenter_default ''<a/><b x=\"1\"/><c />''))))"
    by (simp add: search_None_iff prettyPrint_oneLine_def XmlIndenter_default_def)
  from slashGt_preceded_by_space[of prettyPrint_oneLine
      "XmlIndenter_default ''<a/><b x=\"1\"/><c />''"] v h
  show ?thesis by simp
qed

text \<open>
  C2 as the specification states it fails twice: a \<^verbatim>\<open>/>\<close> at the very start of the
  formatted text stays without a space (the loop asks for \<^verbatim>\<open>pos > 0\<close>), and two spaces
  in front of \<^verbatim>\<open>/>\<close> stay two spaces.
  The first conjuncts evaluate the post-processing on the text the formatter has
  returned; the others evaluate \<^verbatim>\<open>indentXML\<close> with a formatter that returns these one-line
  buffers as they are.
\<close>

theorem slashGt_spacing_counterexample:
  "postProcess_cpp ''/>'' = Some ''/>''
   \<and> postProcess_cpp ''<a  />'' = Some ''<a  />''
   \<and> postProcess_part000 ''/>'' = Some ''/>''
   \<and> postProcess_part000 ''<a  />'' = Some ''<a  />''
   \<and> indentXML_cpp prettyPrint_oneLine (XmlIndenter_default ''/>'') = Some ''/>''
   \<and> \<not> slashGt_after_space_or_quote ''/>''
   \<and> indentXML_cpp prettyPrint_oneLine (XmlIndenter_default ''<a  />'') = Some ''<a  />''
   \<and> \<not> slashGt_after_one_space ''<a  />''"
  by code_simp

text \<open>
  C8, as amended. The two revisions of \<^verbatim>\<open>indentXML\<close> return the same string whenever the
  text the formatter returns contains no \<^verbatim>\<open><!--\<close>.
\<close>

theorem indentXML_revisions_agree_without_comments:
  "\<not> sublist ''<!--'' (prettyPrint (formatterParams this) (preProcess (xmlContent this))) \<Longrightarrow>
   indentXML_part000 prettyPrint this = indentXML_cpp prettyPrint this"
proof -
  assume "\<not> sublist ''<!--'' (prettyPrint (formatterParams this) (preProcess (xmlContent this)))"
  then have "\<not> sublist ''<!--'' (selfClosing_loop (patternsReplaced
      (prettyPrint (formatterParams this) (preProcess (xmlContent this)))) 0)"
    by (intro patternsReplaced_no_new) simp_all
  then show ?thesis
    by (simp add: indentXML_part000_def indentXML_cpp_def postProcess_part000_eq
        postProcess_cpp_eq formatSingleLineComments_no_comment)
qed

theorem indentXML_revisions_agree_without_comments_witness:
  "\<not> sublist ''<!--'' (prettyPrint_oneLine (formatterParams (XmlIndenter_default ''<a/>''))
        (preProcess (xmlContent (XmlIndenter_default ''<a/>''))))
   \<and> indentXML_part000 prettyPrint_oneLine (XmlIndenter_default ''<a/>'') = Some ''<a />''
   \<and> indentXML_cpp prettyPrint_oneLine (XmlIndenter_default ''<a/>'') = Some ''<a />''"
proof -
  have h: "\<not> sublist ''<!--'' (prettyPrint_oneLine (formatterParams (XmlIndenter_default ''<a/>''))
        (preProcess (xmlContent (XmlIndenter_default ''<a/>''))))"
    by code_simp
  have v: "indentXML_cpp prettyPrint_oneLine (XmlIndenter_default ''<a/>'') = Some ''<a />''"
    by code_simp
  from indentXML_revisions_agree_without_comments[of prettyPrint_oneLine
      "XmlIndenter_default ''<a/>''", OF h] h v
  show ?thesis by simp
qed

text \<open>
  C8 as stated fails on a text with a comment: the later revision rewrites the comment,
  XmlIndenter.cpp does not.
  The first conjuncts evaluate the post-processing on the text the formatter has
  returned; the others evaluate \<^verbatim>\<open>indentXML\<close> with a formatter that returns these one-line
  buffers as they are.
\<close>

theorem indentXML_revisions_differ_counterexample:
  "postProcess_cpp ''<!--x-->'' = Some ''<!--x-->''
   \<and> postProcess_part000 ''<!--x-->'' = Some ''<!-- x -->''
   \<and> indentXML_cpp prettyPrint_oneLine (XmlIndenter_default ''<!--x-->'') = Some ''<!--x-->''
   \<and> indentXML_part000 prettyPrint_oneLine (XmlIndenter_default ''<!--x-->'') = Some ''<!-- x -->''
   \<and> indentXML_cpp prettyPrint_oneLine (XmlIndenter_default ''<!--x-->'')
       \<noteq> indentXML_part000 prettyPrint_oneLine (XmlIndenter_default ''<!--x-->'')"
  by code_simp

text \<open>
  C3, as amended. For a text in which no \<^verbatim>\<open><!--\<close> is directly followed by \<^verbatim>\<open>>\<close> or by
  \<^verbatim>\<open>->\<close>, \<^verbatim>\<open>formatSingleLineComments\<close> is \<open>comments_spec\<close>: every comment without CR and
  LF becomes \<^verbatim>\<open><!-- body -->\<close>, the body with its leading and trailing space characters
  removed and its runs of spaces collapsed (\<^verbatim>\<open><!-- -->\<close> when nothing is left), every
  comment with a CR or an LF and all other text is copied; and the later revision of
  \<^verbatim>\<open>indentXML\<close> returns this, with the line endings normalised. Only the space
  character is trimmed: tabs stay.
\<close>

theorem single_line_comments_rewritten:
  assumes "\<not> sublist ''<!-->'' f" and "\<not> sublist ''<!--->'' f"
  shows "formatSingleLineComments f = comments_spec f
         \<and> (prettyPrint (formatterParams this) (preProcess (xmlContent this)) = f \<longrightarrow>
            indentXML_part000 prettyPrint this
              = Some (normalizeLineEndings
                        (comments_spec (selfClosing_loop (patternsReplaced f) 0))))"
proof -
  have 1: "formatSingleLineComments f = comments_spec f"
    unfolding formatSingleLineComments_def
    by (rule formatSingleLineComments_loop_spec[OF assms])
  let ?t = "selfClosing_loop (patternsReplaced f) 0"
  have n1: "\<not> sublist ''<!-->'' ?t"
    by (rule patternsReplaced_no_new[OF _ assms(1)]) simp
  have n2: "\<not> sublist ''<!--->'' ?t"
    by (rule patternsReplaced_no_new[OF _ assms(2)]) simp
  have "formatSingleLineComments ?t = comments_spec ?t"
    unfolding formatSingleLineComments_def
    by (rule formatSingleLineComments_loop_spec[OF n1 n2])
  with 1 show ?thesis
    by (simp add: indentXML_part000_def postProcess_part000_eq)
qed

theorem single_line_comments_rewritten_witness:
  "\<not> sublist ''<!-->'' ''<a><!--  x   y --><!----></a>''
   \<and> \<not> sublist ''<!--->'' ''<a><!--  x   y --><!----></a>''
   \<and> formatSingleLineComments ''<a><!--  x   y --><!----></a>''
       = ''<a><!-- x y --><!-- --></a>''
   \<and> indentXML_part000 prettyPrint_oneLine (XmlIndenter_default ''<a><!--  x   y --><!----></a>'')
       = Some ''<a> <!-- x y --> <!-- --></a>''"
proof -
  have h: "\<not> sublist ''<!-->'' ''<a><!--  x   y --><!----></a>''"
          "\<not> sublist ''<!--->'' ''<a><!--  x   y --><!----></a>''"
    by code_simp+
  have c: "comments_spec ''<a><!--  x   y --><!----></a>'' = ''<a><!-- x y --><!-- --></a>''"
    by code_simp
  have v: "indentXML_part000 prettyPrint_oneLine (XmlIndenter_default ''<a><!--  x   y --><!----></a>'')
       = Some ''<a> <!-- x y --> <!-- --></a>''"
    by code_simp
  from single_line_comments_rewritten[OF h, of prettyPrint_oneLine
      "XmlIndenter_default ''<a><!--  x   y --><!----></a>''"] h c v
  show ?thesis by simp
qed

text \<open>
  C3 as stated fails on a comment whose body begins or ends with a tab: the body is
  whitespace only, or surrounded by whitespace, and the tabs are kept.
  The first conjuncts evaluate the post-processing on the text the formatter has
  returned; the others evaluate \<^verbatim>\<open>indentXML\<close> with a formatter that returns these one-line
  buffers as they are.
\<close>

theorem comment_whitespace_counterexample:
  "postProcess_part000 (''<!--'' @ [TAB] @ ''-->'') = Some (''<!-- '' @ [TAB] @ '' -->'')
   \<and> postProcess_part000 (''<!--'' @ [TAB] @ ''x'' @ [TAB] @ ''-->'')
       = Some (''<!-- '' @ [TAB] @ ''x'' @ [TAB] @ '' -->'')
   \<and> indentXML_part000 prettyPrint_oneLine (XmlIndenter_default (''<!--'' @ [TAB] @ ''-->''))
     = Some (''<!-- '' @ [TAB] @ '' -->'')
   \<and> indentXML_part000 prettyPrint_oneLine
         (XmlIndenter_default (''<!--'' @ [TAB] @ ''x'' @ [TAB] @ ''-->''))
     = Some (''<!-- '' @ [TAB] @ ''x'' @ [TAB] @ '' -->'')"
  by code_simp

section \<open>Running the pipeline on its own output\<close>

text \<open>
  When \<^verbatim>\<open>endPos < pos + 4\<close>, the length \<^verbatim>\<open>endPos - (pos + 4)\<close> wraps around and
  \<^verbatim>\<open>substr\<close> returns the rest of the string.
\<close>

lemma str_substr_wrapped:
  "e < b \<Longrightarrow> b \<le> 2 ^ 64 \<Longrightarrow> length s < 2 ^ 64 \<Longrightarrow> str_substr s b (size_t_sub e b) = drop b s"
  by (simp add: str_substr_def size_t_sub_def)

lemma overlapped_comment_value:
  "formatSingleLineComments ''<!--> <!--b-->'' = ''<!-- > <!--b--> --> <!-- b -->''"
proof -
  let ?t = "''<!--> <!--b-->''"
  have f1: "str_find ?t ''<!--'' 0 = Some 0" by code_simp
  have f2: "str_find ?t ''-->'' 0 = Some 2" by code_simp
  have single: "str_find (str_substr ?t 0 (2 - 0 + 3)) [LF] 0 = None
                \<and> str_find (str_substr ?t 0 (2 - 0 + 3)) [CR] 0 = None"
    by code_simp
  have cc: "str_substr ?t (0 + 4) (size_t_sub 2 (0 + 4)) = ''> <!--b-->''"
    by (simp add: str_substr_wrapped)
  have nc: "rewriteComment ''> <!--b-->'' = ''<!-- > <!--b--> -->''"
    by code_simp
  have "formatSingleLineComments_loop ?t 0
        = formatSingleLineComments_loop (str_replace ?t 0 (2 - 0 + 3) ''<!-- > <!--b--> -->'')
            (0 + length ''<!-- > <!--b--> -->'')"
    by (rule fsl_step_single[OF f1 f2 single]) (simp only: cc nc)
  also have "\<dots> = ''<!-- > <!--b--> --> <!-- b -->''"
    by code_simp
  finally show ?thesis by (simp add: formatSingleLineComments_def)
qed

text \<open>
  XmlIndenter.cpp, which has no comment pass, returns the same text on both runs there.
\<close>

lemma indentXML_cpp_twice_there:
  "indentXML_cpp prettyPrint_oneLine (XmlIndenter_default ''<!--><!--b-->'')
     = Some ''<!--> <!--b-->''
   \<and> indentXML_cpp prettyPrint_oneLine (XmlIndenter_default ''<!--> <!--b-->'')
       = Some ''<!--> <!--b-->''"
  by code_simp

text \<open>
  C4. The pipeline of the later revision is not idempotent. In \<^verbatim>\<open><!--><!--b-->\<close> the search
  for \<^verbatim>\<open>-->\<close> starts at the \<^verbatim>\<open><!--\<close> itself and finds the terminator at index 2, inside
  the opener; the wrapped length makes the rest of the text the body of the comment. The
  post-processing returns \<^verbatim>\<open><!-- > <!--b--> --> <!-- b -->\<close>, and on this text it returns
  \<^verbatim>\<open><!-- > <!--b --> --> <!-- b -->\<close>: a second run changes the result of the first. The
  same holds for \<^verbatim>\<open>indentXML\<close> with a formatter that returns these one-line buffers as
  they are.
\<close>

theorem indentXML_part000_not_idempotent:
  "postProcess_part000 ''<!--><!--b-->'' = Some ''<!-- > <!--b--> --> <!-- b -->''
   \<and> postProcess_part000 ''<!-- > <!--b--> --> <!-- b -->''
       = Some ''<!-- > <!--b --> --> <!-- b -->''
   \<and> indentXML_part000 prettyPrint_oneLine (XmlIndenter_default ''<!--><!--b-->'')
       = Some ''<!-- > <!--b--> --> <!-- b -->''
   \<and> indentXML_part000 prettyPrint_oneLine
         (XmlIndenter_default ''<!-- > <!--b--> --> <!-- b -->'')
       = Some ''<!-- > <!--b --> --> <!-- b -->''"
proof -
  have t: "selfClosing_loop (patternsReplaced ''<!--><!--b-->'') 0 = ''<!--> <!--b-->''"
    by code_simp
  have p: "preProcess ''<!--><!--b-->'' = ''<!--><!--b-->''"
    by code_simp
  have n: "normalizeLineEndings ''<!-- > <!--b--> --> <!-- b -->''
             = ''<!-- > <!--b--> --> <!-- b -->''"
    by code_simp
  have 1: "postProcess_part000 ''<!--><!--b-->'' = Some ''<!-- > <!--b--> --> <!-- b -->''"
    by (simp only: postProcess_part000_eq t overlapped_comment_value n)
  have 2: "postProcess_part000 ''<!-- > <!--b--> --> <!-- b -->''
             = Some ''<!-- > <!--b --> --> <!-- b -->''"
    by code_simp
  have 3: "indentXML_part000 prettyPrint_oneLine (XmlIndenter_default ''<!--><!--b-->'')
             = Some ''<!-- > <!--b--> --> <!-- b -->''"
    by (simp only: indentXML_part000_def prettyPrint_oneLine_def XmlIndenter_default_def
        XmlIndenter.simps p 1)
  have 4: "indentXML_part000 prettyPrint_oneLine
             (XmlIndenter_default ''<!-- > <!--b--> --> <!-- b -->'')
             = Some ''<!-- > <!--b --> --> <!-- b -->''"
    by code_simp
  from 1 2 3 4 show ?thesis by (intro conjI)
qed

section \<open>The run without arguments\<close>

subsection \<open>The files that are selected\<close>

lemma path_extension_append: "p \<noteq> [] \<Longrightarrow> path_extension (dir @ p) = path_extension p"
  by (simp add: path_extension_def)

lemma path_extension_Cons: "p \<noteq> [] \<Longrightarrow> path_extension (name # p) = path_extension p"
  using path_extension_append[of p "[name]"] by simp

lemma collect_loop_eq: "collect_loop entries acc = acc @ map fst (filter selected entries)"
  by (induction entries acc rule: collect_loop.induct) (auto simp: selected_def Let_def)

lemma selected_paths:
  "map fst (filter selected (walk dir es)) = map ((@) dir) (xml_paths es)"
proof (induction dir es rule: walk.induct)
  case (1 dir)
  then show ?case by simp
next
  case (2 dir name n es)
  have ext: "path_extension (dir @ [name]) = path_extension [name]"
    by (rule path_extension_append) simp
  show ?case
  proof (cases n)
    case (RegularFile c)
    with "2.IH"(2) show ?thesis
      by (simp add: selected_def is_regular_file_def ext xml_or_xsd_def)
  next
    case (Directory sub)
    with "2.IH"(1)[OF Directory] "2.IH"(2) show ?thesis
      by (simp add: selected_def is_regular_file_def comp_def)
  next
    case OtherEntry
    with "2.IH"(2) show ?thesis
      by (simp add: selected_def is_regular_file_def)
  qed
qed

lemma findXmlAndXsdFiles_eq: "findXmlAndXsdFiles (Some (Directory cwd)) = xml_paths cwd"
proof -
  have "map ((@) []) ps = ps" for ps :: "path list"
    by (induction ps) simp_all
  then have "map ((@) []) (xml_paths cwd) = xml_paths cwd" .
  with selected_paths[of "[]" cwd] show ?thesis
    by (simp add: findXmlAndXsdFiles_def collect_loop_eq)
qed

lemma xml_paths_heads: "p \<in> set (xml_paths es) \<Longrightarrow> p \<noteq> [] \<and> hd p \<in> fst ` set es"
proof (induction es arbitrary: p rule: xml_paths.induct)
  case 1
  then show ?case by simp
next
  case (2 name n es)
  then show ?case by (cases n) (auto split: if_splits)
qed

lemma xml_paths_nonempty: "\<forall>p\<in>set (xml_paths es). p \<noteq> []"
  using xml_paths_heads by blast

lemma lookup_Nil: "lookup [] p = None"
  by (cases "([] :: entries, p)" rule: lookup.cases) simp_all

lemma lookup_Cons_cases:
  "lookup ((name, n) # es) (q # r) =
     (if q = name then (if r = [] then Some n
                        else case n of Directory sub \<Rightarrow> lookup sub r | _ \<Rightarrow> None)
      else lookup es (q # r))"
  by (cases r) (auto split: node.splits)

lemma xml_paths_lookup:
  "well_formed es \<Longrightarrow>
   p \<in> set (xml_paths es) \<longleftrightarrow>
     (\<exists>content. lookup es p = Some (RegularFile content))
     \<and> (path_extension p = ''.xml'' \<or> path_extension p = ''.xsd'')"
proof (induction es arbitrary: p rule: xml_paths.induct)
  case 1
  then show ?case by (simp add: lookup_Nil)
next
  case (2 name n es)
  from "2.prems" have fresh: "name \<notin> fst ` set es" and wf: "well_formed es" by simp_all
  note tl = "2.IH"(2)[OF wf]
  show ?case
  proof (cases p)
    case Nil
    have "[] \<notin> set (xml_paths ((name, n) # es))"
      using xml_paths_heads[of "[]" "(name, n) # es"] by blast
    with Nil show ?thesis by simp
  next
    case (Cons q r)
    show ?thesis
    proof (cases "q = name")
      case False
      have "p \<notin> set (case n of
        RegularFile content \<Rightarrow> if xml_or_xsd name then [[name]] else []
      | Directory sub \<Rightarrow> map ((#) name) (xml_paths sub)
      | OtherEntry \<Rightarrow> [])"
        using False Cons by (auto split: node.splits)
      then show ?thesis using tl[of p] False Cons by (simp add: lookup_Cons_cases)
    next
      case True
      have notin: "p \<notin> set (xml_paths es)"
        using xml_paths_heads[of p es] fresh True Cons by auto
      show ?thesis
      proof (cases n)
        case (RegularFile c)
        then show ?thesis using notin True Cons
          by (auto simp: lookup_Cons_cases xml_or_xsd_def)
      next
        case (Directory sub)
        with "2.prems" have "well_formed sub" by simp
        note hd = "2.IH"(1)[OF Directory this, of r]
        show ?thesis
        proof (cases "r = []")
          case True
          then show ?thesis using notin \<open>q = name\<close> Cons Directory xml_paths_heads[of "[]" sub]
            by (auto simp: lookup_Cons_cases)
        next
          case False
          then have "path_extension (name # r) = path_extension r"
            by (rule path_extension_Cons)
          then show ?thesis using notin \<open>q = name\<close> Cons Directory hd False
            by (auto simp: lookup_Cons_cases)
        qed
      next
        case OtherEntry
        then show ?thesis using notin True Cons
          by (auto simp: lookup_Cons_cases)
      qed
    qed
  qed
qed

lemma xml_paths_distinct: "well_formed es \<Longrightarrow> distinct (xml_paths es)"
proof (induction es rule: xml_paths.induct)
  case 1
  then show ?case by simp
next
  case (2 name n es)
  from "2.prems" have fresh: "name \<notin> fst ` set es" and wf: "well_formed es" by simp_all
  have away: "\<And>p. p \<in> set (xml_paths es) \<Longrightarrow> hd p \<noteq> name"
    using xml_paths_heads[of _ es] fresh by metis
  show ?case
  proof (cases n)
    case (RegularFile c)
    then show ?thesis using "2.IH"(2)[OF wf] away[of "[name]"] by auto
  next
    case (Directory sub)
    with "2.prems" have "well_formed sub" by simp
    from "2.IH"(1)[OF Directory this] have "distinct (map ((#) name) (xml_paths sub))"
      by (simp add: distinct_map inj_on_def)
    moreover have "set (map ((#) name) (xml_paths sub)) \<inter> set (xml_paths es) = {}"
      using away by fastforce
    ultimately show ?thesis using "2.IH"(2)[OF wf] Directory by simp
  next
    case OtherEntry
    then show ?thesis using "2.IH"(2)[OF wf] by simp
  qed
qed

subsection \<open>Reading and writing below a directory\<close>

lemma lookup_in_dir:
  "p \<noteq> [] \<Longrightarrow> lookup ((name, Directory sub) # es) (name # p) = lookup sub p"
  by (cases p) simp_all

lemma lookup_skip:
  "q \<noteq> name \<Longrightarrow> lookup ((name, n) # es) (q # p) = lookup es (q # p)"
  by (cases p) simp_all

lemma replace_entry_head:
  "name \<notin> fst ` set es \<Longrightarrow> replace_entry ((name, n) # es) name n' = (name, n') # es"
proof -
  assume a: "name \<notin> fst ` set es"
  have "map (\<lambda>(k, x). if k = name then (k, n') else (k, x)) es = es"
    using a by (induction es) auto
  then show ?thesis by (simp add: replace_entry_def)
qed

lemma replace_entry_skip:
  "q \<noteq> name \<Longrightarrow> replace_entry ((name, n) # es) q n' = (name, n) # replace_entry es q n'"
  by (simp add: replace_entry_def)

lemma store_in_dir:
  "p \<noteq> [] \<Longrightarrow> name \<notin> fst ` set es \<Longrightarrow>
   store ((name, Directory sub) # es) (name # p) c
     = map_option (\<lambda>sub'. (name, Directory sub') # es) (store sub p c)"
  by (cases p) (auto simp: replace_entry_head split: option.splits)

lemma store_skip:
  "q \<noteq> name \<Longrightarrow>
   store ((name, n) # es) (q # p) c = map_option ((#) (name, n)) (store es (q # p) c)"
  by (cases p) (auto simp: replace_entry_skip split: option.splits node.splits)

lemma processXmlFile_in_dir:
  assumes "p \<noteq> []" "name \<notin> fst ` set es"
    and "processXmlFile ix sub p a b c d = Some (Continue (ok, sub'))"
  shows "processXmlFile ix ((name, Directory sub) # es) (name # p) a b c d
           = Some (Continue (ok, (name, Directory sub') # es))"
  using assms(3)
  by (auto simp: processXmlFile_def readFile_def writeFile_def lookup_in_dir[OF assms(1)]
        store_in_dir[OF assms(1,2)]
      split: option.splits node.splits step.splits)

lemma processXmlFile_skip:
  assumes "q \<noteq> name"
    and "processXmlFile ix es (q # p) a b c d = Some (Continue (ok, es'))"
  shows "processXmlFile ix ((name, n) # es) (q # p) a b c d
           = Some (Continue (ok, (name, n) # es'))"
  using assms(2)
  by (auto simp: processXmlFile_def readFile_def writeFile_def lookup_skip[OF assms(1)]
        store_skip[OF assms(1)]
      split: option.splits node.splits step.splits)

lemma processXmlFile_file:
  assumes "name \<notin> fst ` set es"
    and "ix (XmlIndenter_default content) = Some formatted"
  shows "processXmlFile ix ((name, RegularFile content) # es) [name] [TAB] [LF] True True
           = Some (Continue (True, (name, RegularFile formatted) # es))"
  using assms
  by (simp add: processXmlFile_def readFile_def writeFile_def replace_entry_head
      XmlIndenter_default_def)

subsection \<open>The loop over the selected files\<close>

lemma process_loop_append:
  "process_loop ix ps fs k = Some (Continue (k', fs')) \<Longrightarrow>
   process_loop ix (ps @ qs) fs k = process_loop ix qs fs' k'"
  by (induction ix ps fs k rule: process_loop.induct)
     (auto split: option.splits step.splits if_splits)

lemma process_loop_in_dir:
  assumes "name \<notin> fst ` set es"
  shows "\<forall>p\<in>set ps. p \<noteq> [] \<Longrightarrow>
         process_loop ix ps sub k = Some (Continue (k', sub')) \<Longrightarrow>
         process_loop ix (map ((#) name) ps) ((name, Directory sub) # es) k
           = Some (Continue (k', (name, Directory sub') # es))"
proof (induction ix ps sub k rule: process_loop.induct)
  case (1 ix fs k)
  then show ?case by simp
next
  case (2 ix f files fs k)
  from "2.prems"(2) obtain ok fs1 where
    s: "processXmlFile ix fs f [TAB] [LF] True True = Some (Continue (ok, fs1))"
    and r: "process_loop ix files fs1 (if ok then k + 1 else k) = Some (Continue (k', sub'))"
    by (auto split: option.splits step.splits)
  from "2.prems"(1) have ne: "f \<noteq> []" and rest: "\<forall>p\<in>set files. p \<noteq> []" by simp_all
  have "process_loop ix (map ((#) name) files) ((name, Directory fs1) # es)
          (if ok then k + 1 else k) = Some (Continue (k', (name, Directory sub') # es))"
    using "2.IH"[OF s refl refl rest r] .
  with processXmlFile_in_dir[OF ne assms s] show ?case by simp
qed

lemma process_loop_skip:
  "\<forall>p\<in>set ps. p \<noteq> [] \<and> hd p \<noteq> name \<Longrightarrow>
   process_loop ix ps es k = Some (Continue (k', es')) \<Longrightarrow>
   process_loop ix ps ((name, n) # es) k = Some (Continue (k', (name, n) # es'))"
proof (induction ix ps es k rule: process_loop.induct)
  case (1 ix fs k)
  then show ?case by simp
next
  case (2 ix f files fs k)
  from "2.prems"(2) obtain ok fs1 where
    s: "processXmlFile ix fs f [TAB] [LF] True True = Some (Continue (ok, fs1))"
    and r: "process_loop ix files fs1 (if ok then k + 1 else k) = Some (Continue (k', es'))"
    by (auto split: option.splits step.splits)
  from "2.prems"(1) obtain q p where f: "f = q # p" and q: "q \<noteq> name"
    by (cases f) auto
  from "2.prems"(1) have rest: "\<forall>p\<in>set files. p \<noteq> [] \<and> hd p \<noteq> name" by simp
  have "process_loop ix files ((name, n) # fs1) (if ok then k + 1 else k)
          = Some (Continue (k', (name, n) # es'))"
    using "2.IH"[OF s refl refl rest r] .
  with processXmlFile_skip[OF q s[unfolded f]] show ?case by (simp add: f)
qed

lemma process_loop_format_entries:
  assumes ix: "\<And>content. ix (XmlIndenter_default content) = Some (out content)"
  shows "well_formed es \<Longrightarrow>
         \<exists>k'. process_loop ix (xml_paths es) es k = Some (Continue (k', format_entries out es))"
proof (induction es arbitrary: k rule: xml_paths.induct)
  case 1
  then show ?case by simp
next
  case (2 name n es)
  from "2.prems" have fresh: "name \<notin> fst ` set es" and wf: "well_formed es" by simp_all
  let ?heads = "case n of
        RegularFile content \<Rightarrow> if xml_or_xsd name then [[name]] else []
      | Directory sub \<Rightarrow> map ((#) name) (xml_paths sub)
      | OtherEntry \<Rightarrow> []"
  let ?n' = "case n of
              RegularFile content \<Rightarrow> RegularFile (if xml_or_xsd name then out content else content)
            | Directory sub \<Rightarrow> Directory (format_entries out sub)
            | OtherEntry \<Rightarrow> OtherEntry"
  have head: "\<exists>k1. process_loop ix ?heads ((name, n) # es) k = Some (Continue (k1, (name, ?n') # es))"
  proof (cases n)
    case (RegularFile content)
    then show ?thesis
      using processXmlFile_file[of name es ix content "out content", OF fresh ix] by simp
  next
    case (Directory sub)
    with "2.prems" have "well_formed sub" by simp
    from "2.IH"(1)[OF Directory this, of k] obtain k1 where
      "process_loop ix (xml_paths sub) sub k = Some (Continue (k1, format_entries out sub))" ..
    from process_loop_in_dir[OF fresh xml_paths_nonempty this] Directory show ?thesis
      by auto
  next
    case OtherEntry
    then show ?thesis by simp
  qed
  then obtain k1 where
    h: "process_loop ix ?heads ((name, n) # es) k = Some (Continue (k1, (name, ?n') # es))" ..
  from "2.IH"(2)[OF wf, of k1] obtain k2 where
    t: "process_loop ix (xml_paths es) es k1 = Some (Continue (k2, format_entries out es))" ..
  have away: "\<forall>p\<in>set (xml_paths es). p \<noteq> [] \<and> hd p \<noteq> name"
    using xml_paths_heads[of _ es] fresh by metis
  have "process_loop ix (xml_paths ((name, n) # es)) ((name, n) # es) k
          = process_loop ix (xml_paths es) ((name, ?n') # es) k1"
    using process_loop_append[OF h, of "xml_paths es"] by simp
  also have "\<dots> = Some (Continue (k2, (name, ?n') # format_entries out es))"
    by (rule process_loop_skip[OF away t])
  finally show ?case by auto
qed

lemma format_entries_no_paths: "xml_paths es = [] \<Longrightarrow> format_entries out es = es"
proof (induction es rule: xml_paths.induct)
  case 1
  then show ?case by simp
next
  case (2 name n es)
  then show ?case by (cases n) (auto split: if_splits)
qed

text \<open>
  C7. Run without arguments in a directory tree, the program selects exactly the paths that
  name a regular file with extension \<^verbatim>\<open>.xml\<close> or \<^verbatim>\<open>.xsd\<close>, each once, at any depth; it hands
  the content of each to \<^verbatim>\<open>indentXML\<close> with the default settings (tab, LF, indent-only,
  auto-close) and writes the result back to the same path; every other entry stays as it
  was, and the exit code is 0. This holds whenever \<^verbatim>\<open>indentXML\<close> returns (\<open>out\<close> names what it
  returns with the default settings).
\<close>

theorem main_no_args_formats_xml_and_xsd:
  assumes "well_formed cwd"
    and "\<And>content. indentXML (XmlIndenter_default content) = Some (out content)"
  shows "set (findXmlAndXsdFiles (Some (Directory cwd)))
           = {p. (\<exists>content. lookup cwd p = Some (RegularFile content))
                 \<and> (path_extension p = ''.xml'' \<or> path_extension p = ''.xsd'')}
         \<and> distinct (findXmlAndXsdFiles (Some (Directory cwd)))
         \<and> main_no_args indentXML cwd = Some (0, format_entries out cwd)"
proof (intro conjI)
  show "set (findXmlAndXsdFiles (Some (Directory cwd)))
           = {p. (\<exists>content. lookup cwd p = Some (RegularFile content))
                 \<and> (path_extension p = ''.xml'' \<or> path_extension p = ''.xsd'')}"
    unfolding findXmlAndXsdFiles_eq using xml_paths_lookup[OF assms(1)] by blast
  show "distinct (findXmlAndXsdFiles (Some (Directory cwd)))"
    unfolding findXmlAndXsdFiles_eq by (rule xml_paths_distinct[OF assms(1)])
  show "main_no_args indentXML cwd = Some (0, format_entries out cwd)"
  proof (cases "xml_paths cwd = []")
    case True
    then show ?thesis
      by (simp add: main_no_args_def findXmlAndXsdFiles_eq format_entries_no_paths)
  next
    case False
    from process_loop_format_entries[of indentXML out cwd 0, OF assms(2) assms(1)]
    obtain k' where
      "process_loop indentXML (xml_paths cwd) cwd 0
         = Some (Continue (k', format_entries out cwd))" ..
    with False show ?thesis
      by (simp add: main_no_args_def findXmlAndXsdFiles_eq)
  qed
qed

theorem main_no_args_formats_xml_and_xsd_witness:
  "main_no_args (indentXML_cpp prettyPrint_oneLine)
     [(''a.xml'', RegularFile ''<a/>''),
      (''d'', Directory [(''b.xsd'', RegularFile ''  <b/>''),
                        (''c.txt'', RegularFile ''<c/>''),
                        (''e'', Directory [])]),
      (''z'', OtherEntry)]
   = Some (0, [(''a.xml'', RegularFile ''<a />''),
               (''d'', Directory [(''b.xsd'', RegularFile ''<b />''),
                                 (''c.txt'', RegularFile ''<c/>''),
                                 (''e'', Directory [])]),
               (''z'', OtherEntry)])"
proof -
  let ?cwd = "[(''a.xml'', RegularFile ''<a/>''),
      (''d'', Directory [(''b.xsd'', RegularFile ''  <b/>''),
                        (''c.txt'', RegularFile ''<c/>''),
                        (''e'', Directory [])]),
      (''z'', OtherEntry)]"
  let ?out = "\<lambda>content. normalizeLineEndings
                (selfClosing_loop (patternsReplaced (preProcess content)) 0)"
  have wf: "well_formed ?cwd" by code_simp
  have ix: "\<And>content. indentXML_cpp prettyPrint_oneLine (XmlIndenter_default content)
                          = Some (?out content)"
    by (simp add: indentXML_cpp_def postProcess_cpp_eq prettyPrint_oneLine_def
        XmlIndenter_default_def)
  have v: "format_entries ?out ?cwd
           = [(''a.xml'', RegularFile ''<a />''),
               (''d'', Directory [(''b.xsd'', RegularFile ''<b />''),
                                 (''c.txt'', RegularFile ''<c/>''),
                                 (''e'', Directory [])]),
               (''z'', OtherEntry)]"
    by code_simp
  from main_no_args_formats_xml_and_xsd[of ?cwd "indentXML_cpp prettyPrint_oneLine" ?out,
      OF wf ix] v
  show ?thesis by simp
qed

section \<open>The tokens cover the buffer\<close>

lemma tokenize_covers:
  "currpos this \<le> length (srcText this) \<Longrightarrow>
   contiguous (currpos this) (tokenize this)
   \<and> concat (map chars (tokenize this)) = drop (currpos this) (srcText this)
   \<and> list_all (in_buffer (srcText this)) (tokenize this)
   \<and> tokenize this \<noteq> []
   \<and> type (last (tokenize this)) = EndOfFile
   \<and> pos_tok (last (tokenize this)) = length (srcText this)"
proof (induction this rule: tokenize.induct)
  case (1 this)
  obtain t this' where f: "fetchToken this = (t, this')" by (cases "fetchToken this")
  show ?case
  proof (cases "currpos this < length (srcText this)")
    case False
    with "1.prems" have e: "currpos this = length (srcText this)" by simp
    from fetchToken_EndOfFile[OF False] f
    have "type t = EndOfFile" and "pos_tok t = currpos this" "size_tok t = 0" "chars t = []"
      by (auto simp: emit_def)
    moreover have "tokenize this = [t]"
      by (subst tokenize.simps) (simp add: parseNext_def f \<open>type t = EndOfFile\<close>)
    ultimately show ?thesis using e
      by (simp add: in_buffer_def)
  next
    case True
    from fetchToken_advances[OF True] f
    have a: "type t \<noteq> EndOfFile" "1 \<le> size_tok t"
      "currpos this + size_tok t \<le> length (srcText this)" "pos_tok t = currpos this"
      "chars t = take (size_tok t) (drop (currpos this) (srcText this))"
      "currpos this' = currpos this + size_tok t" "srcText this' = srcText this"
      by (auto simp: advances_def)
    have unfold: "tokenize this = t # tokenize this'"
      by (subst tokenize.simps) (simp add: parseNext_def f a(1))
    have "currpos this' \<le> length (srcText this')" using a by simp
    from "1.IH"[OF _ a(1) this] f
    have IH: "contiguous (currpos this') (tokenize this')"
      "concat (map chars (tokenize this')) = drop (currpos this') (srcText this')"
      "list_all (in_buffer (srcText this')) (tokenize this')"
      "tokenize this' \<noteq> []"
      "type (last (tokenize this')) = EndOfFile"
      "pos_tok (last (tokenize this')) = length (srcText this')"
      by (simp_all add: parseNext_def)
    have "take (size_tok t) (drop (currpos this) (srcText this))
            @ drop (currpos this + size_tok t) (srcText this)
          = drop (currpos this) (srcText this)"
      by (metis add.commute append_take_drop_id drop_drop)
    moreover have "in_buffer (srcText this) t"
      using a by (simp add: in_buffer_def)
    ultimately show ?thesis
      unfolding unfold using IH a by simp
  qed
qed


lemma contiguous_sorted: "contiguous p ts \<Longrightarrow> sorted (map pos_tok ts) \<and> (\<forall>t\<in>set ts. p \<le> pos_tok t)"
proof (induction ts arbitrary: p)
  case Nil
  then show ?case by simp
next
  case (Cons t ts)
  from Cons.prems have "pos_tok t = p" "contiguous (p + size_tok t) ts" by simp_all
  with Cons.IH[of "p + size_tok t"] show ?case by fastforce
qed

lemma contiguous_apart:
  "contiguous p ts \<Longrightarrow> i < j \<Longrightarrow> j < length ts \<Longrightarrow>
   pos_tok (ts ! i) + size_tok (ts ! i) \<le> pos_tok (ts ! j)"
proof (induction ts arbitrary: p i j)
  case Nil
  then show ?case by simp
next
  case (Cons t ts)
  from Cons.prems(1) have t: "pos_tok t = p" and c: "contiguous (p + size_tok t) ts" by simp_all
  from Cons.prems(2) obtain j' where j: "j = Suc j'" by (cases j) simp_all
  with Cons.prems(3) have j': "j' < length ts" by simp
  show ?case
  proof (cases i)
    case 0
    from contiguous_sorted[OF c] j' have "p + size_tok t \<le> pos_tok (ts ! j')" by simp
    with 0 j t show ?thesis by simp
  next
    case (Suc i')
    with Cons.prems(2) j have "i' < j'" by simp
    from Cons.IH[OF c this j'] Suc j show ?thesis by simp
  qed
qed

text \<open>
  C6. For every buffer, the tokens of successive \<^verbatim>\<open>parseNext\<close> calls, up to \<open>EndOfFile\<close>, have
  byte ranges inside the buffer that follow each other from offset 0 without gap or
  overlap, in non-decreasing offsets, and their concatenation is the buffer: no byte is
  created or lost. The run ends: the last token is \<open>EndOfFile\<close>, at the end of the buffer.
  (The tokenizer is the one written above from the recognition rules of the
  specification; its code is not among the sources.)
\<close>

theorem parseNext_tokens_cover_buffer:
  "concat (map chars (tokenize (XmlParser_new src))) = src
   \<and> contiguous 0 (tokenize (XmlParser_new src))
   \<and> list_all (in_buffer src) (tokenize (XmlParser_new src))
   \<and> sorted (map pos_tok (tokenize (XmlParser_new src)))
   \<and> (\<forall>i j. i < j \<and> j < length (tokenize (XmlParser_new src)) \<longrightarrow>
          pos_tok (tokenize (XmlParser_new src) ! i) + size_tok (tokenize (XmlParser_new src) ! i)
            \<le> pos_tok (tokenize (XmlParser_new src) ! j))
   \<and> type (last (tokenize (XmlParser_new src))) = EndOfFile
   \<and> pos_tok (last (tokenize (XmlParser_new src))) = length src"
proof -
  have 0: "currpos (XmlParser_new src) \<le> length (srcText (XmlParser_new src))"
    by (simp add: XmlParser_new_def)
  have s: "srcText (XmlParser_new src) = src" "currpos (XmlParser_new src) = 0"
    by (simp_all add: XmlParser_new_def)
  note c = tokenize_covers[OF 0, unfolded s]
  from c have cont: "contiguous 0 (tokenize (XmlParser_new src))" by simp
  from c contiguous_sorted[OF cont] contiguous_apart[OF cont] show ?thesis
    by simp
qed

theorem parseNext_tokens_cover_buffer_witness:
  "map (\<lambda>t. (type t, pos_tok t, chars t))
       (tokenize (XmlParser_new (''<a b='' @ [DQUOTE] @ ''1'' @ [DQUOTE] @ ''/> t'')))
     = [(TagOpening, 0, ''<a''), (Whitespace, 2, '' ''), (AttrName, 3, ''b''), (Equal, 4, ''=''),
        (AttrValue, 5, [DQUOTE] @ ''1'' @ [DQUOTE]), (TagSelfClosingEnd, 8, ''/>''),
        (Whitespace, 10, '' ''), (Text, 11, ''t''), (EndOfFile, 12, [])]
   \<and> concat (map chars (tokenize (XmlParser_new (''<a b='' @ [DQUOTE] @ ''1'' @ [DQUOTE] @ ''/> t''))))
       = ''<a b='' @ [DQUOTE] @ ''1'' @ [DQUOTE] @ ''/> t''"
proof -
  have "map (\<lambda>t. (type t, pos_tok t, chars t))
       (tokenize (XmlParser_new (''<a b='' @ [DQUOTE] @ ''1'' @ [DQUOTE] @ ''/> t'')))
     = [(TagOpening, 0, ''<a''), (Whitespace, 2, '' ''), (AttrName, 3, ''b''), (Equal, 4, ''=''),
        (AttrValue, 5, [DQUOTE] @ ''1'' @ [DQUOTE]), (TagSelfClosingEnd, 8, ''/>''),
        (Whitespace, 10, '' ''), (Text, 11, ''t''), (EndOfFile, 12, [])]"
    by code_simp
  with parseNext_tokens_cover_buffer[of "''<a b='' @ [DQUOTE] @ ''1'' @ [DQUOTE] @ ''/> t''"]
  show ?thesis by simp
qed

end
